theory Spec2Isabelle
  imports Main "HOL-Library.Word" "HOL-Library.Multiset"
begin

section \<open>Data model\<close>

text \<open>
  Modelled from the spec: InetAddress.h is missing. An \<open>InetAddress\<close> is a 32-bit
  unsigned value, compared (\<open>==\<close>, \<open>InetAddress::smaller\<close>) by that value.
\<close>

type_synonym InetAddress = "32 word"

text \<open>
  Modelled from the spec: the alias-method tags of RouterInterface.h, which Router.cpp
  only names (\<open>RouterInterface::UDP_PORT_UNREACHABLE\<close>) and passes around as an
  \<open>unsigned short\<close>.
\<close>

datatype AliasMethod =
    IP_ID_BASED
  | UDP_PORT_UNREACHABLE
  | REVERSE_DNS
  | GROUP_ECHO
  | GROUP_RANDOM
  | GROUP_RESERVED

record RouterInterface =
  ip :: InetAddress
  aliasMethod :: AliasMethod

text \<open>Router.cpp: a router is the list \<open>interfaces\<close> of its RouterInterface objects.\<close>

record Router =
  interfaces :: "RouterInterface list"

text \<open>
  Modelled from the spec: the counter classification of IPTableEntry.h and the entry
  itself, of which Router.cpp and AliasHintCollector.cpp use \<open>getIPIDCounterType\<close>
  and \<open>setTTL\<close>.
\<close>

datatype IPIDCounter =
    UNKNOWN
  | HEALTHY_COUNTER
  | RANDOM_COUNTER
  | ECHO_COUNTER
  | FAST_COUNTER

record IPTableEntry =
  entryIP :: InetAddress
  TTL :: "8 word"
  IPIDCounterType :: IPIDCounter

text \<open>
  Modelled from the spec: IPLookUpTable (missing from the sources) is a mapping from an
  address to its entry; \<open>lookUp\<close> returns the entry or NULL, \<open>create\<close> inserts a new
  entry for the address. The value of a newly constructed entry is the parameter
  \<open>fresh\<close> wherever one is created.
\<close>

type_synonym IPLookUpTable = "InetAddress \<rightharpoonup> IPTableEntry"

definition lookUp :: "IPLookUpTable \<Rightarrow> InetAddress \<Rightarrow> IPTableEntry option" where
  "lookUp table needle = table needle"

definition create :: "(InetAddress \<Rightarrow> IPTableEntry) \<Rightarrow> IPLookUpTable \<Rightarrow> InetAddress
    \<Rightarrow> IPTableEntry \<times> IPLookUpTable" where
  "create fresh table needle = (fresh needle, table(needle \<mapsto> fresh needle))"

section \<open>Router.cpp\<close>

definition Router_new :: Router where
  "Router_new = \<lparr>interfaces = []\<rparr>"

text \<open>
  \<open>addInterface\<close>: push_back, then \<open>interfaces.sort(RouterInterface::smaller)\<close>.
  The comparison (RouterInterface.h) orders by ip; \<open>std::list::sort\<close> is stable, as
  \<open>sort_key\<close> is.
\<close>

definition addInterface :: "Router \<Rightarrow> InetAddress \<Rightarrow> AliasMethod \<Rightarrow> Router" where
  "addInterface r interface method =
     (let newInterface = \<lparr>ip = interface, aliasMethod = method\<rparr>
      in r\<lparr>interfaces := sort_key ip (interfaces r @ [newInterface])\<rparr>)"

definition getNbInterfaces :: "Router \<Rightarrow> 16 word" where
  "getNbInterfaces r = of_nat (length (interfaces r))"

fun hasInterface_loop :: "RouterInterface list \<Rightarrow> InetAddress \<Rightarrow> bool" where
  "hasInterface_loop [] interface = False"
| "hasInterface_loop (i # rest) interface =
     (if ip i = interface then True else hasInterface_loop rest interface)"

definition hasInterface :: "Router \<Rightarrow> InetAddress \<Rightarrow> bool" where
  "hasInterface r interface = hasInterface_loop (interfaces r) interface"

fun getMergingPivot_loop :: "IPLookUpTable \<Rightarrow> RouterInterface list \<Rightarrow> IPTableEntry option" where
  "getMergingPivot_loop table [] = None"
| "getMergingPivot_loop table (interface # rest) =
     (if aliasMethod interface = UDP_PORT_UNREACHABLE then
        (case lookUp table (ip interface) of
           None \<Rightarrow> getMergingPivot_loop table rest
         | Some entry \<Rightarrow>
             if IPIDCounterType entry = HEALTHY_COUNTER then Some entry
             else getMergingPivot_loop table rest)
      else getMergingPivot_loop table rest)"

definition getMergingPivot :: "Router \<Rightarrow> IPLookUpTable \<Rightarrow> IPTableEntry option" where
  "getMergingPivot r table = getMergingPivot_loop table (interfaces r)"

text \<open>
  \<open>toString\<close>: the loop with its \<open>first\<close> flag and the growing \<open>result\<close> stream. How
  an address is printed (\<open>operator<<\<close> of InetAddress.h) is the parameter \<open>render\<close>.
\<close>

fun toString_loop :: "(InetAddress \<Rightarrow> string) \<Rightarrow> bool \<Rightarrow> RouterInterface list \<Rightarrow> string \<Rightarrow> string" where
  "toString_loop render first [] result = result"
| "toString_loop render first (i # rest) result =
     (let result1 = (if first then result else result @ '' '')
      in toString_loop render False rest (result1 @ render (ip i)))"

definition toString :: "(InetAddress \<Rightarrow> string) \<Rightarrow> Router \<Rightarrow> string" where
  "toString render r = toString_loop render True (interfaces r) []"

text \<open>A router filled by successive \<open>addInterface\<close> calls on a new Router.\<close>

definition addInterfaces :: "Router \<Rightarrow> (InetAddress \<times> AliasMethod) list \<Rightarrow> Router" where
  "addInterfaces r calls = foldl (\<lambda>r' (a, m). addInterface r' a m) r calls"

text \<open>
  The invariant the specification states for a Router: at least two interfaces, or
  exactly one that was associated by UDP_PORT_UNREACHABLE.
\<close>

definition router_invariant :: "Router \<Rightarrow> bool" where
  "router_invariant r =
     (2 \<le> length (interfaces r) \<or>
      (case interfaces r of [i] \<Rightarrow> aliasMethod i = UDP_PORT_UNREACHABLE | _ \<Rightarrow> False))"

text \<open>
  The interfaces the specification lets \<open>getMergingPivot\<close> choose from: alias method
  UDP_PORT_UNREACHABLE and a table entry classified HEALTHY_COUNTER.
\<close>

definition mergingCandidate :: "IPLookUpTable \<Rightarrow> RouterInterface \<Rightarrow> bool" where
  "mergingCandidate table i =
     (aliasMethod i = UDP_PORT_UNREACHABLE \<and>
      (case table (ip i) of None \<Rightarrow> False | Some e \<Rightarrow> IPIDCounterType e = HEALTHY_COUNTER))"

text \<open>A list of printed addresses with one blank between neighbours.\<close>

fun joinBlank :: "string list \<Rightarrow> string" where
  "joinBlank [] = []"
| "joinBlank [x] = x"
| "joinBlank (x # y # ys) = x @ '' '' @ joinBlank (y # ys)"

section \<open>AliasHintCollector.cpp\<close>

text \<open>
  The collector's own state. \<open>unsigned long int\<close> is taken at its LP64 width of 64 bits.
  The constructor sets \<open>tokenCounter\<close> to 1 and leaves \<open>currentTTL\<close> as it finds it,
  hence the parameter.
\<close>

record AliasHintCollector =
  IPsToProbe :: "InetAddress list"
  currentTTL :: "8 word"
  tokenCounter :: "64 word"

definition AliasHintCollector_new :: "8 word \<Rightarrow> AliasHintCollector" where
  "AliasHintCollector_new ttl0 = \<lparr>IPsToProbe = [], currentTTL = ttl0, tokenCounter = 1\<rparr>"

definition getProbeToken :: "AliasHintCollector \<Rightarrow> 64 word \<times> AliasHintCollector" where
  "getProbeToken c =
     (let token = tokenCounter c
      in (token, c\<lparr>tokenCounter := tokenCounter c + 1\<rparr>))"

text \<open>The tokens returned by \<open>n\<close> successive calls, in call order.\<close>

fun getProbeTokens :: "nat \<Rightarrow> AliasHintCollector \<Rightarrow> 64 word list \<times> AliasHintCollector" where
  "getProbeTokens 0 c = ([], c)"
| "getProbeTokens (Suc n) c =
     (let (token, c1) = getProbeToken c;
          (tokens, c2) = getProbeTokens n c1
      in (token # tokens, c2))"

subsection \<open>collect: the preprocessing loop (lines 38 to 58)\<close>

text \<open>
  The loop walks the sorted list with \<open>previous\<close>, which starts as \<open>InetAddress(0)\<close>.
  An element equal to \<open>previous\<close> is erased (\<open>erase(i--)\<close>), any other is kept and gets
  a table entry if it has none (\<open>ensureEntry\<close>, the body of the inner \<open>if\<close>). The
  argument list is what the iterator has still to visit; the result is what stays in the
  list. When the erased element is the first one of the list (an address 0.0.0.0, equal
  to the initial \<open>previous\<close>), \<open>i--\<close> steps onto the sentinel node of the
  \<open>std::list\<close> and the loop's \<open>++i\<close> comes back to the new first element, which is
  the next \<open>current\<close> here as well.
\<close>

definition ensureEntry :: "(InetAddress \<Rightarrow> IPTableEntry) \<Rightarrow> 8 word \<Rightarrow> IPLookUpTable \<Rightarrow> InetAddress
    \<Rightarrow> IPLookUpTable" where
  "ensureEntry fresh ttl table current =
     (case lookUp table current of
        None \<Rightarrow>
          (let (newEntry, t) = create fresh table current
           in t(current \<mapsto> newEntry\<lparr>TTL := ttl\<rparr>))
      | Some e \<Rightarrow> table)"

fun collect_dedup :: "(InetAddress \<Rightarrow> IPTableEntry) \<Rightarrow> 8 word \<Rightarrow> InetAddress \<Rightarrow> InetAddress list
    \<Rightarrow> IPLookUpTable \<Rightarrow> InetAddress list \<times> IPLookUpTable" where
  "collect_dedup fresh ttl previous [] table = ([], table)"
| "collect_dedup fresh ttl previous (current # rest) table =
     (if current = previous then collect_dedup fresh ttl current rest table
      else
        let table1 = ensureEntry fresh ttl table current;
            (kept, table2) = collect_dedup fresh ttl current rest table1
        in (current # kept, table2))"

definition collect_prepare :: "(InetAddress \<Rightarrow> IPTableEntry) \<Rightarrow> AliasHintCollector \<Rightarrow> IPLookUpTable
    \<Rightarrow> AliasHintCollector \<times> IPLookUpTable" where
  "collect_prepare fresh c table =
     (let (kept, table1) = collect_dedup fresh (currentTTL c) 0 (sort (IPsToProbe c)) table
      in (c\<lparr>IPsToProbe := kept\<rparr>, table1))"

subsection \<open>collect: thread counts (lines 61 to 80 and 130 to 137)\<close>

record TreeNETEnvironment =
  maxThreads :: "16 word"
  nbIPIDs :: "16 word"

text \<open>
  \<open>maxThreads / (nbIPIDs + 1)\<close> is computed on \<open>int\<close> after integer promotion and
  converted back to \<open>unsigned short\<close>. \<open>nbIPs\<close> is the size of the list.
\<close>

definition maxCollectors :: "TreeNETEnvironment \<Rightarrow> 16 word" where
  "maxCollectors env = word_of_int (uint (maxThreads env) div (uint (nbIPIDs env) + 1))"

definition nbThreads1 :: "TreeNETEnvironment \<Rightarrow> nat \<Rightarrow> 16 word" where
  "nbThreads1 env nbIPs =
     (if nbIPs > unat (maxCollectors env) then maxCollectors env else of_nat nbIPs)"

definition nbThreads2 :: "TreeNETEnvironment \<Rightarrow> nat \<Rightarrow> 16 word" where
  "nbThreads2 env nbIPs =
     (if nbIPs > unat (maxThreads env) then maxThreads env else of_nat nbIPs)"

subsection \<open>collect: the probing units and their source-port bands\<close>

text \<open>
  The constants of DirectProber.h are not among the sources: they are the fields of
  \<open>DirectProber\<close>. The arguments of a unit are the values of the expressions at the call,
  computed on \<open>int\<close> (with LOWER below UPPER the products \<open>j * range\<close> stay below
  65536).
\<close>

record DirectProber =
  DEFAULT_LOWER_SRC_PORT_ICMP_ID :: "16 word"
  DEFAULT_UPPER_SRC_PORT_ICMP_ID :: "16 word"
  DEFAULT_LOWER_DST_PORT_ICMP_SEQ :: "16 word"
  DEFAULT_UPPER_DST_PORT_ICMP_SEQ :: "16 word"

datatype ProbeUnit =
    IPIDCollector InetAddress int
  | UDPUnreachablePortUnit InetAddress int int int int
  | TimestampCheckUnit InetAddress int int int int
  | ReverseDNSUnit InetAddress

fun phase_of :: "ProbeUnit \<Rightarrow> nat" where
  "phase_of (IPIDCollector a off) = 1"
| "phase_of (UDPUnreachablePortUnit a lo hi dlo dhi) = 2"
| "phase_of (TimestampCheckUnit a lo hi dlo dhi) = 3"
| "phase_of (ReverseDNSUnit a) = 4"

datatype Fault = ArrayOutOfBounds | DivisionByZero

text \<open>C division on \<open>int\<close> truncates towards zero.\<close>

definition c_div :: "int \<Rightarrow> int \<Rightarrow> int" where
  "c_div a b = sgn a * sgn b * (\<bar>a\<bar> div \<bar>b\<bar>)"

definition portRange :: "DirectProber \<Rightarrow> TreeNETEnvironment \<Rightarrow> Fault + 16 word" where
  "portRange dp env =
     (if maxThreads env = 0 then Inl DivisionByZero
      else Inr (word_of_int
        (c_div (uint (DEFAULT_UPPER_SRC_PORT_ICMP_ID dp) - uint (DEFAULT_LOWER_SRC_PORT_ICMP_ID dp))
               (uint (maxThreads env)))))"

definition srcPortLower :: "DirectProber \<Rightarrow> 16 word \<Rightarrow> nat \<Rightarrow> int" where
  "srcPortLower dp rng j = uint (DEFAULT_LOWER_SRC_PORT_ICMP_ID dp) + int j * uint rng"

definition srcPortUpper :: "DirectProber \<Rightarrow> 16 word \<Rightarrow> nat \<Rightarrow> int" where
  "srcPortUpper dp rng j =
     uint (DEFAULT_LOWER_SRC_PORT_ICMP_ID dp) + int j * uint rng + uint rng - 1"


definition unit1 :: "TreeNETEnvironment \<Rightarrow> nat \<Rightarrow> InetAddress \<Rightarrow> ProbeUnit" where
  "unit1 env j IPToProbe = IPIDCollector IPToProbe (int j * uint (nbIPIDs env))"

definition unit2 :: "DirectProber \<Rightarrow> 16 word \<Rightarrow> nat \<Rightarrow> InetAddress \<Rightarrow> ProbeUnit" where
  "unit2 dp rng j IPToProbe =
     UDPUnreachablePortUnit IPToProbe (srcPortLower dp rng j) (srcPortUpper dp rng j)
       (uint (DEFAULT_LOWER_DST_PORT_ICMP_SEQ dp)) (uint (DEFAULT_UPPER_DST_PORT_ICMP_SEQ dp))"

definition unit3 :: "DirectProber \<Rightarrow> 16 word \<Rightarrow> nat \<Rightarrow> InetAddress \<Rightarrow> ProbeUnit" where
  "unit3 dp rng j IPToProbe =
     TimestampCheckUnit IPToProbe (srcPortLower dp rng j) (srcPortUpper dp rng j)
       (uint (DEFAULT_LOWER_DST_PORT_ICMP_SEQ dp)) (uint (DEFAULT_UPPER_DST_PORT_ICMP_SEQ dp))"

definition unit4 :: "nat \<Rightarrow> InetAddress \<Rightarrow> ProbeUnit" where
  "unit4 j IPToProbe = ReverseDNSUnit IPToProbe"

subsection \<open>collect: the dispatch loops and the joins\<close>

text \<open>
  What the collector thread does to its pool is recorded as a log: \<open>ThreadStart j t\<close> for
  \<open>th[j] = new Thread(t); th[j]->start()\<close> and \<open>ThreadJoin j t\<close> for \<open>th[j]->join()\<close>.
  The array \<open>th\<close> is a list of its cells (\<open>None\<close> for NULL); reading or writing a cell
  the array does not have is the fault \<open>ArrayOutOfBounds\<close>. The slot \<open>j\<close> is an
  \<open>unsigned short\<close>: \<open>j++\<close> wraps at 65536.
\<close>

datatype Event = ThreadStart nat ProbeUnit | ThreadJoin nat ProbeUnit

fun dispatch :: "(nat \<Rightarrow> InetAddress \<Rightarrow> ProbeUnit) \<Rightarrow> nat \<Rightarrow> InetAddress list \<Rightarrow> nat
    \<Rightarrow> ProbeUnit option list \<Rightarrow> Event list \<Rightarrow> Fault + (ProbeUnit option list \<times> Event list)" where
  "dispatch unit wrap [] j th log = Inr (th, log)"
| "dispatch unit wrap (IPToProbe # rest) j th log =
     (if length th \<le> j then Inl ArrayOutOfBounds
      else
        let log1 = (case th ! j of None \<Rightarrow> log | Some t \<Rightarrow> log @ [ThreadJoin j t]);
            t = unit j IPToProbe;
            j1 = (j + 1) mod 65536;
            j2 = (if j1 = wrap then 0 else j1)
        in dispatch unit wrap rest j2 (th[j := Some t]) (log1 @ [ThreadStart j t]))"

text \<open>"Waiting for all remaining threads to complete": slots \<open>i\<close>, \<open>i + 1\<close>, ... in turn.\<close>

fun joinAll :: "nat \<Rightarrow> ProbeUnit option list \<Rightarrow> Event list \<Rightarrow> ProbeUnit option list \<times> Event list" where
  "joinAll i [] log = ([], log)"
| "joinAll i (None # th) log =
     (let (th', log') = joinAll (Suc i) th log in (None # th', log'))"
| "joinAll i (Some t # th) log =
     (let (th', log') = joinAll (Suc i) th (log @ [ThreadJoin i t]) in (None # th', log'))"

definition runPhase :: "(nat \<Rightarrow> InetAddress \<Rightarrow> ProbeUnit) \<Rightarrow> nat \<Rightarrow> InetAddress list
    \<Rightarrow> ProbeUnit option list \<Rightarrow> Event list \<Rightarrow> Fault + (ProbeUnit option list \<times> Event list)" where
  "runPhase unit wrap ips th log =
     (case dispatch unit wrap ips 0 th log of
        Inl f \<Rightarrow> Inl f
      | Inr (th1, log1) \<Rightarrow> Inr (joinAll 0 th1 log1))"

text \<open>
  Lines 61 to 270 on the prepared list: the log of the whole run, or the first fault.
  The array of phase 1 has \<open>nbThreads1\<close> cells; the one allocated before phase 2 has
  \<open>nbThreads2\<close> cells and serves phases 2 to 4, whose slot counter wraps at \<open>maxThreads\<close>.
\<close>

definition collect_schedule :: "DirectProber \<Rightarrow> TreeNETEnvironment \<Rightarrow> InetAddress list
    \<Rightarrow> Fault + Event list" where
  "collect_schedule dp env ips =
     (let nbIPs = length ips in
      if nbIPs = 0 then Inr []
      else
        case runPhase (unit1 env) (unat (nbThreads1 env nbIPs)) ips
               (replicate (unat (nbThreads1 env nbIPs)) None) [] of
          Inl f \<Rightarrow> Inl f
        | Inr (th1, log1) \<Rightarrow>
            (case portRange dp env of
               Inl f \<Rightarrow> Inl f
             | Inr rng \<Rightarrow>
                 (case runPhase (unit2 dp rng) (unat (maxThreads env)) ips
                         (replicate (unat (nbThreads2 env nbIPs)) None) log1 of
                    Inl f \<Rightarrow> Inl f
                  | Inr (th2, log2) \<Rightarrow>
                      (case runPhase (unit3 dp rng) (unat (maxThreads env)) ips th2 log2 of
                         Inl f \<Rightarrow> Inl f
                       | Inr (th3, log3) \<Rightarrow>
                           (case runPhase unit4 (unat (maxThreads env)) ips th3 log3 of
                              Inl f \<Rightarrow> Inl f
                            | Inr (th4, log4) \<Rightarrow> Inr log4)))))"

text \<open>Phase 1 alone, from the allocation of its array to the last join.\<close>

definition collect_phase1 :: "TreeNETEnvironment \<Rightarrow> InetAddress list
    \<Rightarrow> Fault + (ProbeUnit option list \<times> Event list)" where
  "collect_phase1 env ips =
     runPhase (unit1 env) (unat (nbThreads1 env (length ips))) ips
       (replicate (unat (nbThreads1 env (length ips))) None) []"

subsection \<open>collect: what the log says about the threads\<close>

text \<open>
  The threads that were started and not joined yet, after a log: \<open>track\<close> follows one
  event, \<open>foldl track R log\<close> a whole log from the set \<open>R\<close>. \<open>occupied th\<close> are the
  threads held by the cells of the array (a notion of the proofs, not of the code).
\<close>

fun track :: "(nat \<times> ProbeUnit) set \<Rightarrow> Event \<Rightarrow> (nat \<times> ProbeUnit) set" where
  "track R (ThreadStart j t) = insert (j, t) R"
| "track R (ThreadJoin j t) = R - {(j, t)}"

definition occupied :: "ProbeUnit option list \<Rightarrow> (nat \<times> ProbeUnit) set" where
  "occupied th = {(i, t). i < length th \<and> th ! i = Some t}"

fun unit_of :: "Event \<Rightarrow> ProbeUnit" where
  "unit_of (ThreadStart j t) = t"
| "unit_of (ThreadJoin j t) = t"

fun slot_of :: "Event \<Rightarrow> nat" where
  "slot_of (ThreadStart j t) = j"
| "slot_of (ThreadJoin j t) = j"


text \<open>The joins of the waiting loop, for the cells from slot \<open>i\<close> on.\<close>

fun joins :: "nat \<Rightarrow> ProbeUnit option list \<Rightarrow> Event list" where
  "joins i [] = []"
| "joins i (None # th) = joins (Suc i) th"
| "joins i (Some t # th) = ThreadJoin i t # joins (Suc i) th"

text \<open>
  The runs of the collector thread together with its workers. The collector thread
  executes its log in order (\<open>Main\<close>); a worker writes its result into the IP table
  (\<open>Write j t\<close>, for the thread of unit \<open>t\<close> in slot \<open>j\<close>) at any moment between its
  start and the return of its join, interleaved in any way with the collector thread and
  the other workers. \<open>run todo R tr\<close>: from the point where the collector thread has
  still \<open>todo\<close> to execute and the threads \<open>R\<close> are running, \<open>tr\<close> is a possible
  sequence of steps.
\<close>

datatype Step = Main Event | Write nat ProbeUnit

fun mains :: "Step list \<Rightarrow> Event list" where
  "mains [] = []"
| "mains (Main e # tr) = e # mains tr"
| "mains (Write j t # tr) = mains tr"

inductive run :: "Event list \<Rightarrow> (nat \<times> ProbeUnit) set \<Rightarrow> Step list \<Rightarrow> bool" where
  run_end: "run [] R []"
| run_main: "run todo (track R e) tr \<Longrightarrow> run (e # todo) R (Main e # tr)"
| run_write: "(j, t) \<in> R \<Longrightarrow> run todo R tr \<Longrightarrow> run todo R (Write j t # tr)"

code_pred run .

section \<open>SubnetSiteSet\<close>

text \<open>
  Modelled from the spec: SubnetSite and the body of \<open>SubnetSiteSet::adaptRoutes\<close>
  (SubnetSiteSet.cpp and SubnetSite.h are missing; the header declares
  \<open>unsigned short adaptRoutes(sPrefix, prefix, sNew, newPrefix)\<close> and describes it).
  A route is the sequence of its hops, 0.0.0.0 being the missing marker; a prefix is given
  as the sequence of its \<open>sPrefix\<close> hops. A site whose route begins with \<open>oldPrefix\<close>
  (exact equality of the first hops) has that prefix replaced by \<open>newPrefix\<close>; the
  result is the count of the modified sites, as an \<open>unsigned short\<close>.
\<close>

datatype SubnetStatus = ACCURATE | ODD | SHADOW | UNDEFINED

record SubnetSite =
  sitePrefix :: InetAddress
  prefixLength :: "8 word"
  status :: SubnetStatus
  pivotIP :: InetAddress
  pivotTTL :: "8 word"
  siteInterfaces :: "(InetAddress \<times> 8 word) list"
  route :: "InetAddress list"

definition matchRoutePrefix :: "InetAddress list \<Rightarrow> SubnetSite \<Rightarrow> bool" where
  "matchRoutePrefix oldPrefix ss = (take (length oldPrefix) (route ss) = oldPrefix)"

definition adaptRoute :: "InetAddress list \<Rightarrow> InetAddress list \<Rightarrow> SubnetSite \<Rightarrow> SubnetSite" where
  "adaptRoute oldPrefix newPrefix ss =
     ss\<lparr>route := newPrefix @ drop (length oldPrefix) (route ss)\<rparr>"

fun adaptRoutes_loop :: "InetAddress list \<Rightarrow> InetAddress list \<Rightarrow> SubnetSite list \<Rightarrow> 16 word
    \<Rightarrow> 16 word \<times> SubnetSite list" where
  "adaptRoutes_loop oldPrefix newPrefix [] nbAdapted = (nbAdapted, [])"
| "adaptRoutes_loop oldPrefix newPrefix (ss # rest) nbAdapted =
     (if matchRoutePrefix oldPrefix ss then
        (let (n, rest') = adaptRoutes_loop oldPrefix newPrefix rest (nbAdapted + 1)
         in (n, adaptRoute oldPrefix newPrefix ss # rest'))
      else
        (let (n, rest') = adaptRoutes_loop oldPrefix newPrefix rest nbAdapted
         in (n, ss # rest')))"

definition adaptRoutes :: "InetAddress list \<Rightarrow> InetAddress list \<Rightarrow> SubnetSite list
    \<Rightarrow> 16 word \<times> SubnetSite list" where
  "adaptRoutes oldPrefix newPrefix siteList = adaptRoutes_loop oldPrefix newPrefix siteList 0"

section \<open>Router: interfaces are only ever added\<close>

lemma interfaces_addInterface:
  "interfaces (addInterface r a m) =
     sort_key ip (interfaces r @ [\<lparr>ip = a, aliasMethod = m\<rparr>])"
  by (simp add: addInterface_def)

lemma length_addInterface:
  "length (interfaces (addInterface r a m)) = Suc (length (interfaces r))"
  by (simp add: interfaces_addInterface)

lemma mset_addInterface:
  "mset (interfaces (addInterface r a m)) =
     add_mset \<lparr>ip = a, aliasMethod = m\<rparr> (mset (interfaces r))"
  by (simp add: interfaces_addInterface)

lemma sorted_addInterface:
  "sorted (map ip (interfaces (addInterface r a m)))"
  by (simp add: interfaces_addInterface)

lemma sorted_between:
  assumes "sorted xs" "i \<le> j" "j \<le> k" "k < length xs" "xs ! i = xs ! k"
  shows "xs ! j = xs ! i"
proof -
  have "xs ! i \<le> xs ! j"
    using assms(1-4) by (intro sorted_nth_mono) auto
  moreover have "xs ! j \<le> xs ! k"
    using assms(1-4) by (intro sorted_nth_mono) auto
  ultimately show ?thesis using assms(5) by simp
qed

lemma length_addInterfaces:
  "length (interfaces (addInterfaces r calls)) = length (interfaces r) + length calls"
proof (induction calls arbitrary: r)
  case Nil
  then show ?case by (simp add: addInterfaces_def)
next
  case (Cons c calls)
  obtain a m where c: "c = (a, m)" by (cases c)
  have "addInterfaces r (c # calls) = addInterfaces (addInterface r a m) calls"
    by (simp add: addInterfaces_def c)
  then show ?case by (simp add: Cons.IH length_addInterface)
qed

lemma unat_getNbInterfaces:
  "unat (getNbInterfaces r) = length (interfaces r) mod 65536"
  by (simp add: getNbInterfaces_def unat_of_nat)

text \<open>
  C10, with the bound of the returned count. \<open>addInterface\<close> never merges or
  deduplicates: each call adds exactly one RouterInterface (the multiset of owned
  interfaces grows by the new one, also when its ip is already owned) and the number of
  owned interfaces grows by exactly 1; the list is sorted by ip afterwards, and
  interfaces of equal ip are adjacent in it. \<open>getNbInterfaces\<close> returns the number of
  owned interfaces modulo 65536: it is that number, and grows by exactly 1 with the call,
  as long as the Router owns fewer than 65535 interfaces before the call.
\<close>

theorem addInterface_never_merges:
  "mset (interfaces (addInterface r a m)) =
     add_mset \<lparr>ip = a, aliasMethod = m\<rparr> (mset (interfaces r))
   \<and> length (interfaces (addInterface r a m)) = length (interfaces r) + 1
   \<and> (length (interfaces r) < 65535 \<longrightarrow>
        unat (getNbInterfaces r) = length (interfaces r)
      \<and> unat (getNbInterfaces (addInterface r a m)) = unat (getNbInterfaces r) + 1)
   \<and> unat (getNbInterfaces (addInterface r a m)) = (length (interfaces r) + 1) mod 65536
   \<and> length (filter (\<lambda>i. ip i = a) (interfaces (addInterface r a m))) =
       length (filter (\<lambda>i. ip i = a) (interfaces r)) + 1
   \<and> sorted (map ip (interfaces (addInterface r a m)))
   \<and> (\<forall>i j k. i \<le> j \<and> j \<le> k \<and> k < length (interfaces (addInterface r a m))
        \<and> ip (interfaces (addInterface r a m) ! i) = ip (interfaces (addInterface r a m) ! k)
        \<longrightarrow> ip (interfaces (addInterface r a m) ! j) = ip (interfaces (addInterface r a m) ! i))"
proof -
  let ?xs = "interfaces (addInterface r a m)"
  have c1: "mset ?xs = add_mset \<lparr>ip = a, aliasMethod = m\<rparr> (mset (interfaces r))"
    by (rule mset_addInterface)
  have c2: "length ?xs = length (interfaces r) + 1"
    by (simp add: length_addInterface)
  have c3: "unat (getNbInterfaces r) = length (interfaces r)
      \<and> unat (getNbInterfaces (addInterface r a m)) = unat (getNbInterfaces r) + 1"
    if "length (interfaces r) < 65535"
    using that by (simp add: unat_getNbInterfaces length_addInterface)
  have c3': "unat (getNbInterfaces (addInterface r a m)) = (length (interfaces r) + 1) mod 65536"
    by (simp add: unat_getNbInterfaces length_addInterface)
  have c4: "length (filter (\<lambda>i. ip i = a) ?xs) = length (filter (\<lambda>i. ip i = a) (interfaces r)) + 1"
  proof -
    have "size (filter_mset (\<lambda>i. ip i = a) (mset ?xs)) =
          size (filter_mset (\<lambda>i. ip i = a) (mset (interfaces r))) + 1"
      by (simp add: mset_addInterface)
    then show ?thesis by (metis mset_filter size_mset)
  qed
  have c5: "sorted (map ip ?xs)" by (rule sorted_addInterface)
  have c6: "\<forall>i j k. i \<le> j \<and> j \<le> k \<and> k < length ?xs \<and> ip (?xs ! i) = ip (?xs ! k)
        \<longrightarrow> ip (?xs ! j) = ip (?xs ! i)"
  proof (intro allI impI)
    fix i j k
    assume h: "i \<le> j \<and> j \<le> k \<and> k < length ?xs \<and> ip (?xs ! i) = ip (?xs ! k)"
    have "map ip ?xs ! j = map ip ?xs ! i"
    proof (rule sorted_between [where k = k])
      show "sorted (map ip ?xs)" by (rule c5)
      show "i \<le> j" "j \<le> k" using h by auto
      show "k < length (map ip ?xs)" using h by simp
      show "map ip ?xs ! i = map ip ?xs ! k" using h by simp
    qed
    then show "ip (?xs ! j) = ip (?xs ! i)" using h by simp
  qed
  from c1 c2 c3 c3' c4 c5 c6 show ?thesis by blast
qed

theorem addInterface_never_merges_witness:
  "length (interfaces (addInterfaces Router_new [(7, IP_ID_BASED), (7, REVERSE_DNS)])) < 65535
   \<and> (0::nat) \<le> 1 \<and> (1::nat) \<le> 2
   \<and> 2 < length (interfaces (addInterface (addInterfaces Router_new [(7, IP_ID_BASED), (7, REVERSE_DNS)]) 7 GROUP_ECHO))
   \<and> map ip (interfaces (addInterface (addInterfaces Router_new [(7, IP_ID_BASED), (7, REVERSE_DNS)]) 7 GROUP_ECHO)) = [7, 7, 7]
   \<and> unat (getNbInterfaces (addInterfaces Router_new [(7, IP_ID_BASED), (7, REVERSE_DNS)])) = 2
   \<and> unat (getNbInterfaces (addInterface (addInterfaces Router_new [(7, IP_ID_BASED), (7, REVERSE_DNS)]) 7 GROUP_ECHO)) = 3"
proof -
  let ?r = "addInterfaces Router_new [(7, IP_ID_BASED), (7, REVERSE_DNS)]"
  have ifs: "interfaces ?r = [\<lparr>ip = 7, aliasMethod = IP_ID_BASED\<rparr>, \<lparr>ip = 7, aliasMethod = REVERSE_DNS\<rparr>]"
    by (simp add: addInterfaces_def addInterface_def Router_new_def)
  have h: "length (interfaces ?r) < 65535" by (simp add: ifs)
  have ifs': "map ip (interfaces (addInterface ?r 7 GROUP_ECHO)) = [7, 7, 7]"
    by (simp add: addInterface_def ifs)
  then have l: "2 < length (interfaces (addInterface ?r 7 GROUP_ECHO))"
    by (metis length_map length_Cons list.size(3) numeral_2_eq_2 lessI)
  note T = addInterface_never_merges [of ?r 7 GROUP_ECHO]
  from T h have n: "unat (getNbInterfaces ?r) = length (interfaces ?r)
      \<and> unat (getNbInterfaces (addInterface ?r 7 GROUP_ECHO)) = unat (getNbInterfaces ?r) + 1"
    by blast
  then have n2: "unat (getNbInterfaces ?r) = 2" by (simp add: ifs)
  with n have n3: "unat (getNbInterfaces (addInterface ?r 7 GROUP_ECHO)) = 3" by simp
  have o: "(0::nat) \<le> 1" "(1::nat) \<le> 2" by simp_all
  show ?thesis by (intro conjI h o ifs' l n2 n3)
qed

text \<open>
  On a Router that owns 65535 interfaces \<open>getNbInterfaces\<close> returns 65535; after one
  more \<open>addInterface\<close> the Router owns 65536 interfaces and \<open>getNbInterfaces\<close>
  returns 0.
\<close>

theorem getNbInterfaces_wraps_counterexample:
  "getNbInterfaces (addInterfaces Router_new (replicate 65535 (1, IP_ID_BASED))) = 65535
   \<and> getNbInterfaces (addInterface (addInterfaces Router_new (replicate 65535 (1, IP_ID_BASED))) 1 IP_ID_BASED) = 0
   \<and> length (interfaces (addInterface (addInterfaces Router_new (replicate 65535 (1, IP_ID_BASED))) 1 IP_ID_BASED))
       = 65536"
proof -
  let ?r = "addInterfaces Router_new (replicate 65535 (1, IP_ID_BASED))"
  have l: "length (interfaces ?r) = 65535"
    by (simp add: length_addInterfaces Router_new_def)
  then have 1: "getNbInterfaces ?r = 65535" by (simp add: getNbInterfaces_def)
  from l have l': "length (interfaces (addInterface ?r 1 IP_ID_BASED)) = 65536"
    by (simp add: length_addInterface)
  then have 2: "getNbInterfaces (addInterface ?r 1 IP_ID_BASED) = 0"
    by (simp add: getNbInterfaces_def)
  from 1 2 l' show ?thesis by blast
qed

section \<open>Router: the invariant of the specification\<close>

text \<open>
  C4, as the code has it. A newly constructed Router owns no interface and does not
  satisfy the invariant (at least two interfaces, or exactly one that was associated by
  UDP_PORT_UNREACHABLE); the first \<open>addInterface\<close> establishes it exactly when the alias
  method is UDP_PORT_UNREACHABLE. Every \<open>addInterface\<close> call preserves it, and any
  \<open>addInterface\<close> on a Router that owns an interface establishes it.
\<close>

theorem router_invariant_addInterface:
  "(router_invariant r \<longrightarrow> router_invariant (addInterface r a m))
   \<and> (interfaces r \<noteq> [] \<longrightarrow> router_invariant (addInterface r a m))
   \<and> (router_invariant (addInterface Router_new a m) \<longleftrightarrow> m = UDP_PORT_UNREACHABLE)"
proof -
  have ne: "interfaces r \<noteq> [] \<Longrightarrow> router_invariant (addInterface r a m)"
  proof -
    assume "interfaces r \<noteq> []"
    then have "1 \<le> length (interfaces r)" by (cases "interfaces r") auto
    then have "2 \<le> length (interfaces (addInterface r a m))"
      by (simp add: length_addInterface)
    then show ?thesis by (simp add: router_invariant_def)
  qed
  have inv: "router_invariant r \<Longrightarrow> interfaces r \<noteq> []"
    by (auto simp: router_invariant_def)
  have first: "router_invariant (addInterface Router_new a m) \<longleftrightarrow> m = UDP_PORT_UNREACHABLE"
    by (simp add: router_invariant_def addInterface_def Router_new_def)
  from ne inv first show ?thesis by blast
qed

theorem router_invariant_addInterface_witness:
  "router_invariant (addInterface Router_new 1 UDP_PORT_UNREACHABLE)
   \<and> interfaces (addInterface Router_new 1 UDP_PORT_UNREACHABLE) \<noteq> []
   \<and> router_invariant (addInterface (addInterface Router_new 1 UDP_PORT_UNREACHABLE) 2 IP_ID_BASED)"
  using router_invariant_addInterface [of "addInterface Router_new 1 UDP_PORT_UNREACHABLE" 2 IP_ID_BASED]
    router_invariant_addInterface [of Router_new 1 UDP_PORT_UNREACHABLE]
  by (simp add: addInterface_def Router_new_def)

text \<open>The invariant fails right after construction.\<close>

theorem router_invariant_counterexample: "\<not> router_invariant Router_new"
  by (simp add: router_invariant_def Router_new_def)

section \<open>Router: the merging pivot\<close>

lemma getMergingPivot_loop_find:
  "getMergingPivot_loop table ifs =
     (case find (mergingCandidate table) ifs of
        None \<Rightarrow> None
      | Some i \<Rightarrow> lookUp table (ip i))"
  by (induction ifs) (auto simp: mergingCandidate_def lookUp_def split: option.splits)

text \<open>
  C5. \<open>getMergingPivot\<close> returns the table entry of the first interface, in the stored
  order, whose alias method is UDP_PORT_UNREACHABLE and whose entry in the table is
  classified HEALTHY_COUNTER (\<open>mergingCandidate\<close>); it returns NULL when there is none.
\<close>

theorem getMergingPivot_first:
  "getMergingPivot r table =
     (case find (mergingCandidate table) (interfaces r) of
        None \<Rightarrow> None
      | Some i \<Rightarrow> lookUp table (ip i))
   \<and> (\<forall>k. k < length (interfaces r) \<and> mergingCandidate table (interfaces r ! k)
          \<and> (\<forall>j. j < k \<longrightarrow> \<not> mergingCandidate table (interfaces r ! j))
        \<longrightarrow> getMergingPivot r table = lookUp table (ip (interfaces r ! k))
            \<and> (\<exists>e. getMergingPivot r table = Some e \<and> IPIDCounterType e = HEALTHY_COUNTER))
   \<and> ((\<forall>k. k < length (interfaces r) \<longrightarrow> \<not> mergingCandidate table (interfaces r ! k))
        \<longrightarrow> getMergingPivot r table = None)"
proof -
  let ?P = "mergingCandidate table" and ?xs = "interfaces r"
  have eq: "getMergingPivot r table =
     (case find ?P ?xs of None \<Rightarrow> None | Some i \<Rightarrow> lookUp table (ip i))"
    by (simp add: getMergingPivot_def getMergingPivot_loop_find)
  have some: "getMergingPivot r table = lookUp table (ip (?xs ! k))
            \<and> (\<exists>e. getMergingPivot r table = Some e \<and> IPIDCounterType e = HEALTHY_COUNTER)"
    if h: "k < length ?xs \<and> ?P (?xs ! k) \<and> (\<forall>j. j < k \<longrightarrow> \<not> ?P (?xs ! j))" for k
  proof -
    from h have "find ?P ?xs = Some (?xs ! k)"
      by (simp add: find_Some_iff) blast
    with eq have 1: "getMergingPivot r table = lookUp table (ip (?xs ! k))" by simp
    from h have "?P (?xs ! k)" by simp
    then have "\<exists>e. lookUp table (ip (?xs ! k)) = Some e \<and> IPIDCounterType e = HEALTHY_COUNTER"
      by (auto simp: mergingCandidate_def lookUp_def split: option.splits)
    with 1 show ?thesis by simp
  qed
  have none: "getMergingPivot r table = None"
    if h: "\<forall>k. k < length ?xs \<longrightarrow> \<not> ?P (?xs ! k)"
  proof -
    from h have "find ?P ?xs = None"
      by (simp add: find_None_iff in_set_conv_nth) blast
    with eq show ?thesis by simp
  qed
  from eq some none show ?thesis by blast
qed

theorem getMergingPivot_first_witness:
  "(1::nat) < length (interfaces (addInterfaces Router_new [(2, UDP_PORT_UNREACHABLE), (1, UDP_PORT_UNREACHABLE)]))
   \<and> mergingCandidate
        [1 \<mapsto> \<lparr>entryIP = 1, TTL = 3, IPIDCounterType = RANDOM_COUNTER\<rparr>,
         2 \<mapsto> \<lparr>entryIP = 2, TTL = 3, IPIDCounterType = HEALTHY_COUNTER\<rparr>]
        (interfaces (addInterfaces Router_new [(2, UDP_PORT_UNREACHABLE), (1, UDP_PORT_UNREACHABLE)]) ! 1)
   \<and> \<not> mergingCandidate
        [1 \<mapsto> \<lparr>entryIP = 1, TTL = 3, IPIDCounterType = RANDOM_COUNTER\<rparr>,
         2 \<mapsto> \<lparr>entryIP = 2, TTL = 3, IPIDCounterType = HEALTHY_COUNTER\<rparr>]
        (interfaces (addInterfaces Router_new [(2, UDP_PORT_UNREACHABLE), (1, UDP_PORT_UNREACHABLE)]) ! 0)
   \<and> getMergingPivot (addInterfaces Router_new [(2, UDP_PORT_UNREACHABLE), (1, UDP_PORT_UNREACHABLE)])
        [1 \<mapsto> \<lparr>entryIP = 1, TTL = 3, IPIDCounterType = RANDOM_COUNTER\<rparr>,
         2 \<mapsto> \<lparr>entryIP = 2, TTL = 3, IPIDCounterType = HEALTHY_COUNTER\<rparr>]
       = Some \<lparr>entryIP = 2, TTL = 3, IPIDCounterType = HEALTHY_COUNTER\<rparr>"
proof -
  let ?r = "addInterfaces Router_new [(2, UDP_PORT_UNREACHABLE), (1, UDP_PORT_UNREACHABLE)]"
  let ?t = "[1 \<mapsto> \<lparr>entryIP = 1, TTL = 3, IPIDCounterType = RANDOM_COUNTER\<rparr>,
             2 \<mapsto> \<lparr>entryIP = 2, TTL = 3, IPIDCounterType = HEALTHY_COUNTER\<rparr>] :: IPLookUpTable"
  have ifs: "interfaces ?r = [\<lparr>ip = 1, aliasMethod = UDP_PORT_UNREACHABLE\<rparr>,
                              \<lparr>ip = 2, aliasMethod = UDP_PORT_UNREACHABLE\<rparr>]"
    by (simp add: addInterfaces_def addInterface_def Router_new_def word_le_nat_alt)
  have h1: "(1::nat) < length (interfaces ?r)" by (simp add: ifs)
  have h2: "mergingCandidate ?t (interfaces ?r ! 1)" by (simp add: ifs mergingCandidate_def)
  have h3: "\<not> mergingCandidate ?t (interfaces ?r ! 0)" by (simp add: ifs mergingCandidate_def)
  have h3': "\<forall>j. j < 1 \<longrightarrow> \<not> mergingCandidate ?t (interfaces ?r ! j)" using h3 by simp
  from getMergingPivot_first [of ?r ?t] h1 h2 h3'
  have "getMergingPivot ?r ?t = lookUp ?t (ip (interfaces ?r ! 1))" by blast
  then have "getMergingPivot ?r ?t = Some \<lparr>entryIP = 2, TTL = 3, IPIDCounterType = HEALTHY_COUNTER\<rparr>"
    by (simp add: ifs lookUp_def)
  with h1 h2 h3 show ?thesis by blast
qed

section \<open>Router: printing\<close>

lemma toString_loop_acc:
  "toString_loop render False ifs acc = acc @ concat (map (\<lambda>i. '' '' @ render (ip i)) ifs)"
  by (induction ifs arbitrary: acc) simp_all

lemma joinBlank_Cons:
  "joinBlank (x # xs) = x @ concat (map (\<lambda>y. '' '' @ y) xs)"
  by (induction xs arbitrary: x) simp_all

lemma toString_joinBlank:
  "toString render r = joinBlank (map (\<lambda>i. render (ip i)) (interfaces r))"
proof (cases "interfaces r")
  case Nil
  then show ?thesis by (simp add: toString_def)
next
  case (Cons i rest)
  then show ?thesis
    by (simp add: toString_def toString_loop_acc joinBlank_Cons comp_def)
qed

lemma map_ip_sort_key: "map ip (sort_key ip xs) = sort (map ip xs)"
  by (rule properties_for_sort [symmetric]) simp_all

lemma sort_append_sort: "sort (sort xs @ ys) = sort (xs @ ys)"
  by (rule properties_for_sort) simp_all

lemma addInterfaces_snoc:
  "addInterfaces r (calls @ [(a, m)]) = addInterface (addInterfaces r calls) a m"
  by (simp add: addInterfaces_def)

lemma ips_addInterfaces:
  "map ip (interfaces (addInterfaces Router_new calls)) = sort (map fst calls)"
proof (induction calls rule: rev_induct)
  case Nil
  then show ?case by (simp add: addInterfaces_def Router_new_def)
next
  case (snoc c calls)
  obtain a m where c: "c = (a, m)" by (cases c)
  have "map ip (interfaces (addInterfaces Router_new (calls @ [c]))) =
        sort (map ip (interfaces (addInterfaces Router_new calls)) @ [a])"
    by (simp add: c addInterfaces_snoc interfaces_addInterface map_ip_sort_key)
  also have "\<dots> = sort (sort (map fst calls) @ [a])" by (simp only: snoc.IH)
  also have "\<dots> = sort (map fst calls @ [a])" by (rule sort_append_sort)
  finally show ?case by (simp add: c)
qed

text \<open>
  C6. For a Router filled by \<open>addInterface\<close> calls, \<open>toString\<close> prints the ips of the
  calls in ascending order, one entry per call, with one blank between neighbours.
\<close>

theorem toString_ascending:
  "map ip (interfaces (addInterfaces Router_new calls)) = sort (map fst calls)
   \<and> sorted (map ip (interfaces (addInterfaces Router_new calls)))
   \<and> length (interfaces (addInterfaces Router_new calls)) = length calls
   \<and> toString render (addInterfaces Router_new calls) = joinBlank (map render (sort (map fst calls)))"
proof -
  let ?r = "addInterfaces Router_new calls"
  have 1: "map ip (interfaces ?r) = sort (map fst calls)" by (rule ips_addInterfaces)
  have 2: "sorted (map ip (interfaces ?r))" by (simp only: 1 sorted_sort)
  have "length (map ip (interfaces ?r)) = length (sort (map fst calls))" by (simp only: 1)
  then have 3: "length (interfaces ?r) = length calls" by simp
  have "toString render ?r = joinBlank (map render (map ip (interfaces ?r)))"
    by (simp add: toString_joinBlank comp_def)
  then have 4: "toString render ?r = joinBlank (map render (sort (map fst calls)))"
    by (simp only: 1)
  from 1 2 3 4 show ?thesis by blast
qed

theorem toString_ascending_witness:
  "toString (\<lambda>a. if a = 1 then ''10.0.0.1'' else ''10.0.0.2'')
     (addInterfaces Router_new [(2, IP_ID_BASED), (1, REVERSE_DNS)]) = ''10.0.0.1 10.0.0.2''"
proof -
  have "sort (map fst [(2 :: InetAddress, IP_ID_BASED), (1, REVERSE_DNS)]) = [1, 2]"
    by (simp add: word_le_nat_alt)
  with toString_ascending [of "[(2, IP_ID_BASED), (1, REVERSE_DNS)]"
      "\<lambda>a. if a = 1 then ''10.0.0.1'' else ''10.0.0.2''"]
  show ?thesis by simp
qed

section \<open>AliasHintCollector: probe tokens\<close>

lemma getProbeTokens_fst:
  "fst (getProbeTokens n c) = map (\<lambda>k. tokenCounter c + of_nat k) [0..<n]"
proof (induction n arbitrary: c)
  case 0
  then show ?case by simp
next
  case (Suc n)
  have "fst (getProbeTokens (Suc n) c) =
        tokenCounter c # fst (getProbeTokens n (c\<lparr>tokenCounter := tokenCounter c + 1\<rparr>))"
    by (simp add: getProbeToken_def split: prod.splits)
  also have "\<dots> = tokenCounter c # map (\<lambda>k. tokenCounter c + 1 + of_nat k) [0..<n]"
    by (simp add: Suc.IH)
  also have "\<dots> = map (\<lambda>k. tokenCounter c + of_nat k) (0 # map Suc [0..<n])"
    by (simp add: add.assoc)
  also have "0 # map Suc [0..<n] = [0..<Suc n]"
    by (simp only: map_Suc_upt upt_conv_Cons [of 0 "Suc n"] zero_less_Suc if_True)
  finally show ?case .
qed

lemma getProbeTokens_nth:
  "k < n \<Longrightarrow> fst (getProbeTokens n c) ! k = tokenCounter c + of_nat k"
  by (simp add: getProbeTokens_fst)

lemma unat_token: "k < n \<Longrightarrow> n < 2 ^ 64 \<Longrightarrow> unat (1 + of_nat k :: 64 word) = Suc k"
proof -
  assume "k < n" "n < 2 ^ 64"
  then have "Suc k < 2 ^ 64" by simp
  have "(1 + of_nat k :: 64 word) = of_nat (Suc k)" by simp
  then have "unat (1 + of_nat k :: 64 word) = Suc k mod 2 ^ 64"
    by (simp only: unat_of_nat len_bit0 len_num1 mult_1_right One_nat_def) simp
  with \<open>Suc k < 2 ^ 64\<close> show ?thesis by simp
qed

text \<open>
  C3, as the code has it. In a run of the collector, the values returned by \<open>n\<close>
  successive calls of \<open>getProbeToken\<close> are exactly 1, 2, ..., n, strictly increasing and
  without repetition, as long as \<open>n\<close> is below \<open>2 ^ 64\<close>, where the \<open>unsigned long\<close>
  counter wraps around.
\<close>

theorem getProbeToken_sequence:
  assumes "n < 2 ^ 64"
  shows "map unat (fst (getProbeTokens n (AliasHintCollector_new ttl0))) = [1..<Suc n]
       \<and> sorted_wrt (<) (fst (getProbeTokens n (AliasHintCollector_new ttl0)))
       \<and> distinct (fst (getProbeTokens n (AliasHintCollector_new ttl0)))"
proof -
  let ?ts = "fst (getProbeTokens n (AliasHintCollector_new ttl0))"
  have ts: "?ts = map (\<lambda>k. 1 + of_nat k) [0..<n]"
    by (simp add: getProbeTokens_fst AliasHintCollector_new_def)
  have "map unat ?ts = map (\<lambda>k. unat (1 + of_nat k :: 64 word)) [0..<n]"
    by (simp add: ts comp_def)
  also have "\<dots> = map Suc [0..<n]"
    by (rule map_cong) (use assms in \<open>auto intro: unat_token\<close>)
  also have "\<dots> = [1..<Suc n]" by (simp add: map_Suc_upt)
  finally have 1: "map unat ?ts = [1..<Suc n]" .
  have "sorted_wrt (<) (map unat ?ts)" by (simp only: 1 sorted_wrt_upt)
  moreover have "(<) = (\<lambda>x y :: 64 word. unat x < unat y)"
    by (intro ext) (simp add: word_less_nat_alt)
  ultimately have 2: "sorted_wrt (<) ?ts"
    by (simp add: sorted_wrt_map)
  have "distinct (map unat ?ts)" by (simp only: 1 distinct_upt)
  then have 3: "distinct ?ts" by (simp add: distinct_map)
  from 1 2 3 show ?thesis by blast
qed

theorem getProbeToken_sequence_witness:
  "(3::nat) < 2 ^ 64 \<and> fst (getProbeTokens 3 (AliasHintCollector_new 5)) = [1, 2, 3]"
proof -
  have h: "(3::nat) < 2 ^ 64" by simp
  have e: "fst (getProbeTokens 3 (AliasHintCollector_new 5)) = [1, 1 + 1, 1 + 1 + 1]"
    by (simp add: numeral_3_eq_3 getProbeToken_def AliasHintCollector_new_def)
  from getProbeToken_sequence [OF h, of 5] h e show ?thesis by simp
qed

text \<open>
  Call number \<open>2 ^ 64\<close> returns 0, and the next one returns 1 as the first call did.
\<close>

theorem getProbeToken_wraps_counterexample:
  "fst (getProbeTokens (2 ^ 64) (AliasHintCollector_new 0)) ! (2 ^ 64 - 1) = 0
   \<and> fst (getProbeTokens (2 ^ 64 + 1) (AliasHintCollector_new 0)) ! (2 ^ 64) = 1
   \<and> fst (getProbeTokens (2 ^ 64 + 1) (AliasHintCollector_new 0)) ! 0 = 1"
proof -
  have z: "(of_nat (2 ^ 64) :: 64 word) = 0" by simp
  have "(1 + of_nat (2 ^ 64 - 1) :: 64 word) = of_nat (Suc (2 ^ 64 - 1))" by simp
  also have "Suc (2 ^ 64 - 1) = (2 ^ 64 :: nat)" by simp
  finally have a: "(1 + of_nat (2 ^ 64 - 1) :: 64 word) = 0" using z by simp
  have 1: "fst (getProbeTokens (2 ^ 64) (AliasHintCollector_new 0)) ! (2 ^ 64 - 1) = 0"
    using a by (simp add: getProbeTokens_nth AliasHintCollector_new_def)
  have 2: "fst (getProbeTokens (2 ^ 64 + 1) (AliasHintCollector_new 0)) ! (2 ^ 64) = 1"
    using z by (simp add: getProbeTokens_nth AliasHintCollector_new_def)
  have 3: "fst (getProbeTokens (2 ^ 64 + 1) (AliasHintCollector_new 0)) ! 0 = 1"
    by (simp add: getProbeTokens_nth AliasHintCollector_new_def)
  from 1 2 3 show ?thesis by blast
qed

section \<open>AliasHintCollector: the preprocessing loop\<close>

lemma ensureEntry_apply:
  "ensureEntry fresh ttl t c a =
     (if a = c \<and> t c = None then Some ((fresh c)\<lparr>TTL := ttl\<rparr>) else t a)"
  by (simp add: ensureEntry_def lookUp_def create_def split: option.splits)

lemma dedup_eq [simp]:
  "collect_dedup fresh ttl p (p # rest) t = collect_dedup fresh ttl p rest t"
  by simp

lemma dedup_neq_fst:
  "c \<noteq> p \<Longrightarrow> fst (collect_dedup fresh ttl p (c # rest) t) =
     c # fst (collect_dedup fresh ttl c rest (ensureEntry fresh ttl t c))"
  by (simp add: Let_def split: prod.splits)

lemma dedup_neq_snd:
  "c \<noteq> p \<Longrightarrow> snd (collect_dedup fresh ttl p (c # rest) t) =
     snd (collect_dedup fresh ttl c rest (ensureEntry fresh ttl t c))"
  by (simp add: Let_def split: prod.splits)

declare collect_dedup.simps(2) [simp del]

lemma dedup_sorted:
  "sorted (p # xs) \<Longrightarrow> sorted_wrt (<) (p # fst (collect_dedup fresh ttl p xs t))"
proof (induction xs arbitrary: p t)
  case Nil
  then show ?case by simp
next
  case (Cons c rest)
  from Cons.prems have sc: "sorted (c # rest)" and pc: "p \<le> c" by auto
  have ih: "sorted_wrt (<) (c # fst (collect_dedup fresh ttl c rest t'))" for t'
    by (rule Cons.IH [OF sc])
  show ?case
  proof (cases "c = p")
    case True
    then show ?thesis using ih [of t] by simp
  next
    case False
    with pc have "p < c" by simp
    then show ?thesis
      using ih [of "ensureEntry fresh ttl t c"] by (auto simp: dedup_neq_fst [OF False])
  qed
qed

lemma dedup_set:
  "sorted (p # xs) \<Longrightarrow> set (fst (collect_dedup fresh ttl p xs t)) = set xs - {p}"
proof (induction xs arbitrary: p t)
  case Nil
  then show ?case by simp
next
  case (Cons c rest)
  from Cons.prems have sc: "sorted (c # rest)" and pc: "p \<le> c"
    and pr: "\<forall>x \<in> set rest. c \<le> x" by auto
  have ih: "set (fst (collect_dedup fresh ttl c rest t')) = set rest - {c}" for t'
    by (rule Cons.IH [OF sc])
  show ?case
  proof (cases "c = p")
    case True
    then show ?thesis using ih [of t] by auto
  next
    case False
    with pc have "p < c" by simp
    with pr have "p \<notin> set (c # rest)" by auto
    then show ?thesis
      using ih [of "ensureEntry fresh ttl t c"] by (auto simp: dedup_neq_fst [OF False])
  qed
qed

lemma dedup_table_old:
  "t a = Some e \<Longrightarrow> snd (collect_dedup fresh ttl p xs t) a = Some e"
proof (induction xs arbitrary: p t)
  case Nil
  then show ?case by simp
next
  case (Cons c rest)
  show ?case
  proof (cases "c = p")
    case True
    then show ?thesis using Cons.IH [where t = t and p = c] Cons.prems by simp
  next
    case False
    have "ensureEntry fresh ttl t c a = Some e"
      using Cons.prems by (auto simp: ensureEntry_apply)
    with Cons.IH [where t = "ensureEntry fresh ttl t c" and p = c] show ?thesis
      by (simp only: dedup_neq_snd [OF False])
  qed
qed

lemma dedup_table_new:
  "t a = None \<Longrightarrow>
     snd (collect_dedup fresh ttl p xs t) a = None
   \<or> snd (collect_dedup fresh ttl p xs t) a = Some ((fresh a)\<lparr>TTL := ttl\<rparr>)"
proof (induction xs arbitrary: p t)
  case Nil
  then show ?case by simp
next
  case (Cons c rest)
  show ?case
  proof (cases "c = p")
    case True
    then show ?thesis using Cons.IH [where t = t and p = c] Cons.prems by simp
  next
    case False
    let ?t1 = "ensureEntry fresh ttl t c"
    show ?thesis
    proof (cases "c = a")
      case True
      then have "?t1 a = Some ((fresh a)\<lparr>TTL := ttl\<rparr>)"
        using Cons.prems by (simp add: ensureEntry_apply)
      then have "snd (collect_dedup fresh ttl c rest ?t1) a = Some ((fresh a)\<lparr>TTL := ttl\<rparr>)"
        by (rule dedup_table_old [where t = ?t1 and a = a])
      then show ?thesis
        by (simp add: dedup_neq_snd [OF False])
    next
      case ca: False
      then have "?t1 a = None" using Cons.prems by (auto simp: ensureEntry_apply)
      with Cons.IH [where t = ?t1 and p = c] show ?thesis
        by (simp only: dedup_neq_snd [OF False])
    qed
  qed
qed

lemma dedup_table_kept:
  "a \<in> set (fst (collect_dedup fresh ttl p xs t)) \<Longrightarrow>
     snd (collect_dedup fresh ttl p xs t) a \<noteq> None"
proof (induction xs arbitrary: p t)
  case Nil
  then show ?case by simp
next
  case (Cons c rest)
  show ?case
  proof (cases "c = p")
    case True
    then show ?thesis using Cons.IH [of c t] Cons.prems by simp
  next
    case False
    let ?t1 = "ensureEntry fresh ttl t c"
    have t1c: "?t1 c \<noteq> None" by (auto simp: ensureEntry_apply)
    from Cons.prems have "a = c \<or> a \<in> set (fst (collect_dedup fresh ttl c rest ?t1))"
      by (simp add: dedup_neq_fst [OF False])
    then show ?thesis
    proof
      assume "a = c"
      with t1c obtain e where "?t1 a = Some e" by auto
      with dedup_table_old [where t = ?t1 and a = a and fresh = fresh and ttl = ttl and p = c and xs = rest]
      show ?thesis by (simp add: dedup_neq_snd [OF False])
    next
      assume "a \<in> set (fst (collect_dedup fresh ttl c rest ?t1))"
      from Cons.IH [OF this] show ?thesis by (simp add: dedup_neq_snd [OF False])
    qed
  qed
qed

lemma dedup_table_dom:
  "snd (collect_dedup fresh ttl p xs t) a \<noteq> None \<Longrightarrow>
     t a \<noteq> None \<or> a \<in> set (fst (collect_dedup fresh ttl p xs t))"
proof (induction xs arbitrary: p t)
  case Nil
  then show ?case by simp
next
  case (Cons c rest)
  show ?case
  proof (cases "c = p")
    case True
    then show ?thesis using Cons.IH [of c t] Cons.prems by simp
  next
    case False
    let ?t1 = "ensureEntry fresh ttl t c"
    from Cons.prems have "snd (collect_dedup fresh ttl c rest ?t1) a \<noteq> None"
      by (simp add: dedup_neq_snd [OF False])
    from Cons.IH [OF this]
    have "?t1 a \<noteq> None \<or> a \<in> set (fst (collect_dedup fresh ttl c rest ?t1))" .
    then show ?thesis
      by (auto simp: dedup_neq_fst [OF False] ensureEntry_apply split: if_splits)
  qed
qed

text \<open>
  C2. After the preprocessing loop and before any probing, whatever \<open>IPsToProbe\<close> held:
  the list is sorted in ascending order and has no duplicates, every address in it has an
  entry in the IP table, every entry the loop created belongs to an address of the list
  and has the collector's \<open>currentTTL\<close>, and the entries that existed are unchanged.
  The list keeps every address it held except 0.0.0.0, the initial value of \<open>previous\<close>.
\<close>

theorem collect_prepare_sorted_distinct:
  "sorted (IPsToProbe (fst (collect_prepare fresh c table)))
   \<and> distinct (IPsToProbe (fst (collect_prepare fresh c table)))
   \<and> set (IPsToProbe (fst (collect_prepare fresh c table))) = set (IPsToProbe c) - {0}
   \<and> (\<forall>a \<in> set (IPsToProbe (fst (collect_prepare fresh c table))).
         lookUp (snd (collect_prepare fresh c table)) a \<noteq> None)
   \<and> (\<forall>a e. lookUp table a = None \<and> lookUp (snd (collect_prepare fresh c table)) a = Some e
         \<longrightarrow> TTL e = currentTTL c \<and> a \<in> set (IPsToProbe (fst (collect_prepare fresh c table))))
   \<and> (\<forall>a e. lookUp table a = Some e \<longrightarrow> lookUp (snd (collect_prepare fresh c table)) a = Some e)"
proof -
  let ?xs = "sort (IPsToProbe c)"
  let ?d = "collect_dedup fresh (currentTTL c) 0 ?xs table"
  have f: "IPsToProbe (fst (collect_prepare fresh c table)) = fst ?d"
    and s: "snd (collect_prepare fresh c table) = snd ?d"
    by (simp_all add: collect_prepare_def split: prod.splits)
  have s0: "sorted (0 # ?xs)" by simp
  have strict: "sorted_wrt (<) (0 # fst ?d)" by (rule dedup_sorted [OF s0])
  then have st: "sorted_wrt (<) (fst ?d)" by simp
  have 1: "sorted (fst ?d)" using st by (rule strict_sorted_imp_sorted)
  have 2: "distinct (fst ?d)" using st by (simp add: strict_sorted_iff)
  have 3: "set (fst ?d) = set (IPsToProbe c) - {0}"
    using dedup_set [OF s0] by simp
  have 4: "\<forall>a \<in> set (fst ?d). lookUp (snd ?d) a \<noteq> None"
    using dedup_table_kept [where fresh = fresh and ttl = "currentTTL c" and p = 0 and xs = ?xs and t = table]
    by (simp add: lookUp_def)
  have 5: "TTL e = currentTTL c \<and> a \<in> set (fst ?d)"
    if h: "lookUp table a = None \<and> lookUp (snd ?d) a = Some e" for a e
  proof -
    from h have n: "table a = None" and sm: "snd ?d a = Some e" by (simp_all add: lookUp_def)
    from dedup_table_new [where t = table and a = a and fresh = fresh and ttl = "currentTTL c"
        and p = 0 and xs = ?xs] n sm
    have "e = (fresh a)\<lparr>TTL := currentTTL c\<rparr>" by auto
    then have "TTL e = currentTTL c" by simp
    moreover from dedup_table_dom [where t = table and a = a and fresh = fresh and ttl = "currentTTL c"
        and p = 0 and xs = ?xs] n sm
    have "a \<in> set (fst ?d)" by auto
    ultimately show ?thesis by simp
  qed
  have 6: "\<forall>a e. lookUp table a = Some e \<longrightarrow> lookUp (snd ?d) a = Some e"
    using dedup_table_old [where fresh = fresh and ttl = "currentTTL c" and p = 0 and xs = ?xs and t = table]
    by (simp add: lookUp_def)
  from 5 have c5: "\<forall>a e. lookUp table a = None \<and> lookUp (snd ?d) a = Some e
         \<longrightarrow> TTL e = currentTTL c \<and> a \<in> set (fst ?d)" by blast
  show ?thesis unfolding f s
    by (intro conjI) (rule 1, rule 2, rule 3, rule 4, rule c5, rule 6)
qed

theorem collect_prepare_sorted_distinct_witness:
  "IPsToProbe (fst (collect_prepare (\<lambda>a. \<lparr>entryIP = a, TTL = 0, IPIDCounterType = UNKNOWN\<rparr>)
      \<lparr>IPsToProbe = [3, 1, 3, 0], currentTTL = 7, tokenCounter = 1\<rparr>
      [1 \<mapsto> \<lparr>entryIP = 1, TTL = 2, IPIDCounterType = HEALTHY_COUNTER\<rparr>])) = [1, 3]
   \<and> lookUp [1 \<mapsto> \<lparr>entryIP = 1, TTL = 2, IPIDCounterType = HEALTHY_COUNTER\<rparr>] 3 = None
   \<and> lookUp (snd (collect_prepare (\<lambda>a. \<lparr>entryIP = a, TTL = 0, IPIDCounterType = UNKNOWN\<rparr>)
      \<lparr>IPsToProbe = [3, 1, 3, 0], currentTTL = 7, tokenCounter = 1\<rparr>
      [1 \<mapsto> \<lparr>entryIP = 1, TTL = 2, IPIDCounterType = HEALTHY_COUNTER\<rparr>])) 3
       = Some \<lparr>entryIP = 3, TTL = 7, IPIDCounterType = UNKNOWN\<rparr>
   \<and> lookUp (snd (collect_prepare (\<lambda>a. \<lparr>entryIP = a, TTL = 0, IPIDCounterType = UNKNOWN\<rparr>)
      \<lparr>IPsToProbe = [3, 1, 3, 0], currentTTL = 7, tokenCounter = 1\<rparr>
      [1 \<mapsto> \<lparr>entryIP = 1, TTL = 2, IPIDCounterType = HEALTHY_COUNTER\<rparr>])) 1
       = Some \<lparr>entryIP = 1, TTL = 2, IPIDCounterType = HEALTHY_COUNTER\<rparr>"
proof -
  let ?F = "\<lambda>a. \<lparr>entryIP = a, TTL = 0 :: 8 word, IPIDCounterType = UNKNOWN\<rparr>"
  let ?C = "\<lparr>IPsToProbe = [3, 1, 3, 0], currentTTL = 7, tokenCounter = 1\<rparr>"
  let ?T = "[1 \<mapsto> \<lparr>entryIP = 1, TTL = 2, IPIDCounterType = HEALTHY_COUNTER\<rparr>] :: IPLookUpTable"
  let ?P = "collect_prepare ?F ?C ?T"
  have ips: "IPsToProbe (fst ?P) = [1, 3]"
    by (simp add: collect_prepare_def word_le_nat_alt collect_dedup.simps(2) ensureEntry_apply split: prod.splits)
  have new: "lookUp (snd ?P) 3 = Some \<lparr>entryIP = 3, TTL = 7, IPIDCounterType = UNKNOWN\<rparr>"
    by (simp add: collect_prepare_def word_le_nat_alt collect_dedup.simps(2) ensureEntry_apply lookUp_def split: prod.splits)
  have none: "lookUp ?T 3 = None" by (simp add: lookUp_def)
  have old: "lookUp ?T 1 = Some \<lparr>entryIP = 1, TTL = 2, IPIDCounterType = HEALTHY_COUNTER\<rparr>"
    by (simp add: lookUp_def)
  from collect_prepare_sorted_distinct [of ?F ?C ?T]
  have "\<forall>a e. lookUp ?T a = Some e \<longrightarrow> lookUp (snd ?P) a = Some e" by blast
  with old have "lookUp (snd ?P) 1 = Some \<lparr>entryIP = 1, TTL = 2, IPIDCounterType = HEALTHY_COUNTER\<rparr>"
    by blast
  with ips new none show ?thesis by blast
qed

section \<open>AliasHintCollector: thread counts and the pool\<close>

lemma unat16_less: "unat (w :: 16 word) < 65536"
  using unsigned_less [of w, where 'a = nat] by simp

lemma unat_maxCollectors:
  "unat (maxCollectors env) = unat (maxThreads env) div (unat (nbIPIDs env) + 1)"
proof -
  let ?k = "unat (maxThreads env) div (unat (nbIPIDs env) + 1)"
  have "uint (maxThreads env) div (uint (nbIPIDs env) + 1) = int ?k"
    by (simp add: zdiv_int add.commute)
  then have "maxCollectors env = of_nat ?k" by (simp add: maxCollectors_def)
  moreover have "?k < 65536"
    by (rule le_less_trans [OF div_le_dividend unat16_less])
  ultimately show ?thesis by (simp add: unat_of_nat)
qed

lemma unat_nbThreads1:
  "unat (nbThreads1 env nbIPs) = min nbIPs (unat (maxThreads env) div (unat (nbIPIDs env) + 1))"
proof (cases "nbIPs > unat (maxCollectors env)")
  case True
  then show ?thesis by (simp add: nbThreads1_def unat_maxCollectors)
next
  case False
  then have le: "nbIPs \<le> unat (maxCollectors env)" by simp
  have "unat (maxCollectors env) < 65536" by (rule unat16_less)
  with le have "nbIPs < 65536" by simp
  then have "unat (of_nat nbIPs :: 16 word) = nbIPs"
    by (simp add: unat_of_nat)
  with False le show ?thesis by (simp add: nbThreads1_def unat_maxCollectors)
qed

lemma unat_nbThreads2:
  "unat (nbThreads2 env nbIPs) = min nbIPs (unat (maxThreads env))"
proof (cases "nbIPs > unat (maxThreads env)")
  case True
  then show ?thesis by (simp add: nbThreads2_def)
next
  case False
  then have le: "nbIPs \<le> unat (maxThreads env)" by simp
  have "unat (maxThreads env) < 65536" by (rule unat16_less)
  with le have "nbIPs < 65536" by simp
  then have "unat (of_nat nbIPs :: 16 word) = nbIPs"
    by (simp add: unat_of_nat)
  with False le show ?thesis by (simp add: nbThreads2_def)
qed

lemma dispatch_Cons:
  "j < length th \<Longrightarrow> j + 1 < 65536 \<Longrightarrow>
     dispatch mk wrap (a # rest) j th log =
       dispatch mk wrap rest (if j + 1 = wrap then 0 else j + 1) (th[j := Some (mk j a)])
         ((case th ! j of None \<Rightarrow> log | Some t \<Rightarrow> log @ [ThreadJoin j t]) @ [ThreadStart j (mk j a)])"
  by (simp add: Let_def)

lemma dispatch_out_of_bounds:
  "length th \<le> j \<Longrightarrow> dispatch mk wrap (a # rest) j th log = Inl ArrayOutOfBounds"
  by simp

declare dispatch.simps(2) [simp del]

lemma dispatch_safe:
  assumes "length th \<le> wrap" "wrap < 65536"
    and "(length th = wrap \<and> j < wrap) \<or> j + length ips \<le> length th"
  shows "\<exists>th' log'. dispatch mk wrap ips j th log = Inr (th', log') \<and> length th' = length th"
  using assms
proof (induction ips arbitrary: j th log)
  case Nil
  then show ?case by simp
next
  case (Cons a rest)
  from Cons.prems have j: "j < length th" by auto
  with Cons.prems have j1: "j + 1 < 65536" by simp
  define j2 where "j2 = (if j + 1 = wrap then 0 else j + 1)"
  define log1 where "log1 = (case th ! j of None \<Rightarrow> log | Some t \<Rightarrow> log @ [ThreadJoin j t])"
  let ?th = "th[j := Some (mk j a)]"
  have step: "dispatch mk wrap (a # rest) j th log =
              dispatch mk wrap rest j2 ?th (log1 @ [ThreadStart j (mk j a)])"
    unfolding j2_def log1_def by (rule dispatch_Cons [OF j j1])
  have inv: "(length ?th = wrap \<and> j2 < wrap) \<or> j2 + length rest \<le> length ?th"
    using Cons.prems j by (auto simp: j2_def)
  have "length ?th \<le> wrap" using Cons.prems by simp
  from Cons.IH [OF this Cons.prems(2) inv, of "log1 @ [ThreadStart j (mk j a)]"]
  show ?case unfolding step by simp
qed

lemma runPhase_safe:
  assumes "length th \<le> wrap" "wrap < 65536"
    and "(length th = wrap \<and> 0 < wrap) \<or> length ips \<le> length th"
  shows "\<exists>r. runPhase mk wrap ips th log = Inr r"
proof -
  from dispatch_safe [OF assms(1,2), of 0 ips mk log] assms(3)
  obtain th' log' where "dispatch mk wrap ips 0 th log = Inr (th', log')" by auto
  then show ?thesis by (simp add: runPhase_def)
qed

lemma collect_phase1_safe:
  assumes "ips \<noteq> []" and "unat (nbIPIDs env) + 1 \<le> unat (maxThreads env)"
  shows "\<exists>r. collect_phase1 env ips = Inr r"
proof -
  let ?n = "nbThreads1 env (length ips)"
  from assms(2) have "0 < unat (maxThreads env) div (unat (nbIPIDs env) + 1)"
    by (simp add: div_greater_zero_iff)
  moreover from assms(1) have "0 < length ips" by simp
  ultimately have "0 < min (length ips) (unat (maxThreads env) div (unat (nbIPIDs env) + 1))"
    by simp
  then have pos: "0 < unat ?n" by (simp only: unat_nbThreads1)
  have "unat ?n < 65536" by (rule unat16_less)
  with pos show ?thesis
    unfolding collect_phase1_def by (intro runPhase_safe) auto
qed

text \<open>
  C1. With \<open>nbIPs > 0\<close> addresses to probe, phase 1 uses
  \<open>min nbIPs (maxThreads / (nbIPIDs + 1))\<close> threads. When \<open>maxThreads < nbIPIDs + 1\<close>
  that is 0: the array \<open>th\<close> has no cell and the first pass of the dispatch loop
  reads \<open>th[0]\<close> outside of it. When \<open>maxThreads \<ge> nbIPIDs + 1\<close> phase 1 runs to its
  last join with every access inside the array. So the accesses of phase 1 are safe
  exactly for the configurations with \<open>maxThreads \<ge> nbIPIDs + 1\<close>.
\<close>

theorem phase1_thread_count:
  "ips \<noteq> [] \<longrightarrow>
     unat (nbThreads1 env (length ips)) =
       min (length ips) (unat (maxThreads env) div (unat (nbIPIDs env) + 1))
   \<and> (unat (maxThreads env) < unat (nbIPIDs env) + 1 \<longrightarrow>
         nbThreads1 env (length ips) = 0
       \<and> replicate (unat (nbThreads1 env (length ips))) (None :: ProbeUnit option) = []
       \<and> collect_phase1 env ips = Inl ArrayOutOfBounds)
   \<and> (unat (nbIPIDs env) + 1 \<le> unat (maxThreads env) \<longrightarrow>
         (\<exists>r. collect_phase1 env ips = Inr r))"
proof
  assume ne: "ips \<noteq> []"
  let ?n = "nbThreads1 env (length ips)"
  have cnt: "unat ?n = min (length ips) (unat (maxThreads env) div (unat (nbIPIDs env) + 1))"
    by (rule unat_nbThreads1)
  have bad: "?n = 0 \<and> replicate (unat ?n) (None :: ProbeUnit option) = []
       \<and> collect_phase1 env ips = Inl ArrayOutOfBounds"
    if lt: "unat (maxThreads env) < unat (nbIPIDs env) + 1"
  proof -
    from lt have "unat (maxThreads env) div (unat (nbIPIDs env) + 1) = 0" by simp
    with cnt have "unat ?n = 0" by simp
    then have z: "?n = 0" by (simp add: unat_eq_0)
    obtain a rest where "ips = a # rest" using ne by (cases ips) auto
    have "collect_phase1 env ips = runPhase (unit1 env) 0 ips [] []"
      by (simp add: collect_phase1_def z)
    also have "\<dots> = Inl ArrayOutOfBounds"
      using \<open>ips = a # rest\<close> by (simp add: runPhase_def dispatch_out_of_bounds)
    finally show ?thesis using z by simp
  qed
  have good: "\<exists>r. collect_phase1 env ips = Inr r"
    if le: "unat (nbIPIDs env) + 1 \<le> unat (maxThreads env)"
    using ne le by (rule collect_phase1_safe)
  from cnt bad good
  show "unat ?n = min (length ips) (unat (maxThreads env) div (unat (nbIPIDs env) + 1))
   \<and> (unat (maxThreads env) < unat (nbIPIDs env) + 1 \<longrightarrow>
         ?n = 0 \<and> replicate (unat ?n) (None :: ProbeUnit option) = []
       \<and> collect_phase1 env ips = Inl ArrayOutOfBounds)
   \<and> (unat (nbIPIDs env) + 1 \<le> unat (maxThreads env) \<longrightarrow>
         (\<exists>r. collect_phase1 env ips = Inr r))"
    by blast
qed

theorem phase1_thread_count_witness:
  "[10, 20, 30 :: InetAddress] \<noteq> []
   \<and> unat (maxThreads \<lparr>maxThreads = 4, nbIPIDs = 4\<rparr>) < unat (nbIPIDs \<lparr>maxThreads = 4, nbIPIDs = 4\<rparr>) + 1
   \<and> nbThreads1 \<lparr>maxThreads = 4, nbIPIDs = 4\<rparr> (length [10, 20, 30 :: InetAddress]) = 0
   \<and> collect_phase1 \<lparr>maxThreads = 4, nbIPIDs = 4\<rparr> [10, 20, 30] = Inl ArrayOutOfBounds
   \<and> unat (nbIPIDs \<lparr>maxThreads = 10, nbIPIDs = 4\<rparr>) + 1 \<le> unat (maxThreads \<lparr>maxThreads = 10, nbIPIDs = 4\<rparr>)
   \<and> unat (nbThreads1 \<lparr>maxThreads = 10, nbIPIDs = 4\<rparr> (length [10, 20, 30 :: InetAddress])) = 2"
proof -
  have ne: "[10, 20, 30 :: InetAddress] \<noteq> []" by simp
  have lt: "unat (maxThreads \<lparr>maxThreads = 4, nbIPIDs = 4\<rparr>) < unat (nbIPIDs \<lparr>maxThreads = 4, nbIPIDs = 4\<rparr>) + 1"
    by simp
  have le: "unat (nbIPIDs \<lparr>maxThreads = 10, nbIPIDs = 4\<rparr>) + 1 \<le> unat (maxThreads \<lparr>maxThreads = 10, nbIPIDs = 4\<rparr>)"
    by simp
  from phase1_thread_count [of "[10, 20, 30]" "\<lparr>maxThreads = 4, nbIPIDs = 4\<rparr>"] ne lt
  have a: "nbThreads1 \<lparr>maxThreads = 4, nbIPIDs = 4\<rparr> (length [10, 20, 30 :: InetAddress]) = 0
         \<and> collect_phase1 \<lparr>maxThreads = 4, nbIPIDs = 4\<rparr> [10, 20, 30] = Inl ArrayOutOfBounds"
    by blast
  from phase1_thread_count [of "[10, 20, 30]" "\<lparr>maxThreads = 10, nbIPIDs = 4\<rparr>"] ne
  have "unat (nbThreads1 \<lparr>maxThreads = 10, nbIPIDs = 4\<rparr> (length [10, 20, 30 :: InetAddress])) =
        min (length [10, 20, 30 :: InetAddress])
          (unat (maxThreads \<lparr>maxThreads = 10, nbIPIDs = 4\<rparr>) div (unat (nbIPIDs \<lparr>maxThreads = 10, nbIPIDs = 4\<rparr>) + 1))"
    by blast
  then have b: "unat (nbThreads1 \<lparr>maxThreads = 10, nbIPIDs = 4\<rparr> (length [10, 20, 30 :: InetAddress])) = 2"
    by simp
  from ne lt le a b show ?thesis by blast
qed

section \<open>AliasHintCollector: source-port bands\<close>






section \<open>AliasHintCollector: the log of a run\<close>

lemma foldl_track_append:
  "foldl track R (xs @ ys) = foldl track (foldl track R xs) ys"
  by simp

lemma occupied_update_None:
  "j < length th \<Longrightarrow> th ! j = None \<Longrightarrow>
     occupied (th[j := Some t]) = insert (j, t) (occupied th)"
  by (auto simp: occupied_def nth_list_update split: if_splits)

lemma occupied_update_Some:
  "j < length th \<Longrightarrow> th ! j = Some t0 \<Longrightarrow>
     occupied (th[j := Some t]) = insert (j, t) (occupied th - {(j, t0)})"
  by (auto simp: occupied_def nth_list_update split: if_splits)

lemma occupied_replicate_None [simp]: "occupied (replicate n None) = {}"
  by (auto simp: occupied_def)

text \<open>What one dispatch loop adds to the log.\<close>

lemma dispatch_log:
  assumes "dispatch mk wrap ips j th log = Inr (th', log')"
    and "\<forall>(i, t) \<in> occupied th. Q i t"
    and "\<forall>i a. Q i (mk i a)"
  shows "\<exists>new. log' = log @ new \<and> length th' = length th
           \<and> foldl track (occupied th) new = occupied th'
           \<and> (\<forall>e \<in> set new. Q (slot_of e) (unit_of e))
           \<and> (\<forall>(i, t) \<in> occupied th'. Q i t)"
  using assms(1,2)
proof (induction ips arbitrary: j th log)
  case Nil
  then show ?case by auto
next
  case (Cons a rest)
  have j: "j < length th"
  proof (rule ccontr)
    assume "\<not> j < length th"
    then have "dispatch mk wrap (a # rest) j th log = Inl ArrayOutOfBounds"
      by (simp add: dispatch_out_of_bounds)
    with Cons.prems(1) show False by simp
  qed
  define j2 where "j2 = (let j1 = (j + 1) mod 65536 in if j1 = wrap then 0 else j1)"
  define pre where "pre = (case th ! j of None \<Rightarrow> [] | Some t \<Rightarrow> [ThreadJoin j t])"
  let ?t = "mk j a"
  let ?th = "th[j := Some ?t]"
  have log1: "(case th ! j of None \<Rightarrow> log | Some t \<Rightarrow> log @ [ThreadJoin j t]) = log @ pre"
    by (simp add: pre_def split: option.splits)
  have step: "dispatch mk wrap (a # rest) j th log =
              dispatch mk wrap rest j2 ?th (log @ pre @ [ThreadStart j ?t])"
    using j by (simp add: dispatch.simps(2) Let_def j2_def log1)
  have occ: "foldl track (occupied th) (pre @ [ThreadStart j ?t]) = occupied ?th"
  proof (cases "th ! j")
    case None
    then show ?thesis using j by (simp add: pre_def occupied_update_None)
  next
    case (Some t0)
    then show ?thesis using j by (simp add: pre_def occupied_update_Some)
  qed
  have Qpre: "\<forall>e \<in> set (pre @ [ThreadStart j ?t]). Q (slot_of e) (unit_of e)"
  proof (cases "th ! j")
    case None
    then show ?thesis using assms(3) by (simp add: pre_def)
  next
    case (Some t0)
    with j have "(j, t0) \<in> occupied th" by (simp add: occupied_def)
    with Cons.prems(2) have "Q j t0" by auto
    with Some show ?thesis using assms(3) by (simp add: pre_def)
  qed
  have Qth: "\<forall>(i, t) \<in> occupied ?th. Q i t"
    using Cons.prems(2) assms(3) j
    by (auto simp: occupied_def nth_list_update split: if_splits)
  from Cons.prems(1) have "dispatch mk wrap rest j2 ?th (log @ pre @ [ThreadStart j ?t]) = Inr (th', log')"
    by (simp only: step)
  from Cons.IH [OF this Qth]
  obtain new where new: "log' = (log @ pre @ [ThreadStart j ?t]) @ new" "length th' = length ?th"
      "foldl track (occupied ?th) new = occupied th'"
      "\<forall>e \<in> set new. Q (slot_of e) (unit_of e)" "\<forall>(i, t) \<in> occupied th'. Q i t"
    by blast
  let ?new = "(pre @ [ThreadStart j ?t]) @ new"
  have "log' = log @ ?new" using new(1) by simp
  moreover have "length th' = length th" using new(2) by simp
  moreover have "foldl track (occupied th) ?new = occupied th'"
  proof -
    have "foldl track (occupied th) ?new =
          foldl track (foldl track (occupied th) (pre @ [ThreadStart j ?t])) new"
      by (rule foldl_append)
    then show ?thesis by (simp only: occ new(3))
  qed
  moreover have "\<forall>e \<in> set ?new. Q (slot_of e) (unit_of e)"
    using Qpre new(4) by auto
  ultimately show ?case using new(5) by blast
qed

lemma joinAll_eq:
  "joinAll i th log = (replicate (length th) None, log @ joins i th)"
  by (induction i th log rule: joinAll.induct) simp_all

lemma occupied_Cons_None: "occupied (replicate i None @ None # th) = occupied (replicate (Suc i) None @ th)"
  by (simp add: replicate_app_Cons_same)

lemma occupied_Cons_Some:
  "occupied (replicate i None @ Some t0 # th) = insert (i, t0) (occupied (replicate (Suc i) None @ th))"
proof -
  let ?xs = "replicate i None @ Some t0 # th"
  have eq: "replicate (Suc i) None @ th = ?xs[i := None]"
    by (simp add: list_update_append replicate_app_Cons_same)
  have "occupied ?xs = insert (i, t0) (occupied (?xs[i := None]))"
    by (auto simp: occupied_def nth_list_update nth_append split: if_splits)
  then show ?thesis by (simp only: eq)
qed

lemma joins_track:
  "foldl track R (joins i th) = R - occupied (replicate i None @ th)"
proof (induction i th arbitrary: R rule: joins.induct)
  case (1 i)
  have "occupied (replicate i None @ []) = {}" by simp
  then show ?case by simp
next
  case (2 i th)
  then show ?case by (simp only: joins.simps occupied_Cons_None)
next
  case (3 i t0 th)
  have "foldl track R (joins i (Some t0 # th)) = foldl track (R - {(i, t0)}) (joins (Suc i) th)"
    by simp
  also have "\<dots> = R - {(i, t0)} - occupied (replicate (Suc i) None @ th)" by (rule 3)
  also have "\<dots> = R - occupied (replicate i None @ Some t0 # th)"
    by (simp only: occupied_Cons_Some) blast
  finally show ?case .
qed

lemma joins_events:
  "e \<in> set (joins i th) \<Longrightarrow> \<exists>k t. e = ThreadJoin (i + k) t \<and> k < length th \<and> th ! k = Some t"
proof (induction i th rule: joins.induct)
  case (1 i)
  then show ?case by simp
next
  case (2 i th)
  then obtain k t where "e = ThreadJoin (Suc i + k) t" "k < length th" "th ! k = Some t" by auto
  then have "e = ThreadJoin (i + Suc k) t \<and> Suc k < length (None # th) \<and> (None # th) ! Suc k = Some t"
    by simp
  then show ?case by blast
next
  case (3 i t0 th)
  from 3(2) have "e = ThreadJoin i t0 \<or> e \<in> set (joins (Suc i) th)" by simp
  then show ?case
  proof
    assume "e = ThreadJoin i t0"
    then have "e = ThreadJoin (i + 0) t0 \<and> 0 < length (Some t0 # th) \<and> (Some t0 # th) ! 0 = Some t0"
      by simp
    then show ?thesis by blast
  next
    assume "e \<in> set (joins (Suc i) th)"
    with 3(1) obtain k t where "e = ThreadJoin (Suc i + k) t" "k < length th" "th ! k = Some t" by auto
    then have "e = ThreadJoin (i + Suc k) t \<and> Suc k < length (Some t0 # th) \<and> (Some t0 # th) ! Suc k = Some t"
      by simp
    then show ?thesis by blast
  qed
qed

lemma runPhase_log:
  assumes "runPhase mk wrap ips th log = Inr (th', log')"
    and "occupied th = {}"
    and "\<forall>i a. Q i (mk i a)"
  shows "\<exists>new. log' = log @ new \<and> th' = replicate (length th) None
           \<and> foldl track {} new = {}
           \<and> (\<forall>e \<in> set new. Q (slot_of e) (unit_of e))"
proof -
  from assms(1) obtain th1 log1 where d: "dispatch mk wrap ips 0 th log = Inr (th1, log1)"
    and j: "joinAll 0 th1 log1 = (th', log')"
    by (auto simp: runPhase_def split: sum.splits)
  have "\<forall>(i, t) \<in> occupied th. Q i t" by (simp add: assms(2))
  from dispatch_log [OF d this assms(3)]
  obtain n1 where n1: "log1 = log @ n1" "length th1 = length th"
      "foldl track (occupied th) n1 = occupied th1"
      "\<forall>e \<in> set n1. Q (slot_of e) (unit_of e)" "\<forall>(i, t) \<in> occupied th1. Q i t"
    by blast
  from j have th': "th' = replicate (length th1) None" and log': "log' = log1 @ joins 0 th1"
    by (simp_all add: joinAll_eq)
  let ?new = "n1 @ joins 0 th1"
  have 1: "log' = log @ ?new" by (simp add: log' n1(1))
  have 2: "th' = replicate (length th) None" by (simp add: th' n1(2))
  have "foldl track {} ?new = foldl track (foldl track {} n1) (joins 0 th1)" by (rule foldl_append)
  also have "foldl track {} n1 = occupied th1" using n1(3) by (simp only: assms(2))
  also have "foldl track (occupied th1) (joins 0 th1) = occupied th1 - occupied (replicate 0 None @ th1)"
    by (rule joins_track)
  finally have 3: "foldl track {} ?new = {}" by simp
  have "Q (slot_of e) (unit_of e)" if "e \<in> set (joins 0 th1)" for e
  proof -
    from joins_events [OF that] obtain k t where "e = ThreadJoin (0 + k) t" "k < length th1" "th1 ! k = Some t"
      by blast
    then have "e = ThreadJoin k t" "(k, t) \<in> occupied th1" by (simp_all add: occupied_def)
    with n1(5) show ?thesis by auto
  qed
  with n1(4) have 4: "\<forall>e \<in> set ?new. Q (slot_of e) (unit_of e)" by auto
  from 1 2 3 4 show ?thesis by blast
qed

lemma collect_schedule_log:
  assumes "collect_schedule dp env ips = Inr log" and "ips \<noteq> []"
  shows "\<exists>rng n1 n2 n3 n4. portRange dp env = Inr rng \<and> log = n1 @ n2 @ n3 @ n4
           \<and> foldl track {} n1 = {} \<and> foldl track {} n2 = {}
           \<and> foldl track {} n3 = {} \<and> foldl track {} n4 = {}
           \<and> (\<forall>e \<in> set n1. \<exists>a. unit_of e = unit1 env (slot_of e) a)
           \<and> (\<forall>e \<in> set n2. \<exists>a. unit_of e = unit2 dp rng (slot_of e) a)
           \<and> (\<forall>e \<in> set n3. \<exists>a. unit_of e = unit3 dp rng (slot_of e) a)
           \<and> (\<forall>e \<in> set n4. \<exists>a. unit_of e = unit4 (slot_of e) a)"
proof -
  let ?k1 = "unat (nbThreads1 env (length ips))" and ?k2 = "unat (nbThreads2 env (length ips))"
  let ?w = "unat (maxThreads env)"
  from assms obtain th1 log1 rng th2 log2 th3 log3 th4 where
    p1: "runPhase (unit1 env) ?k1 ips (replicate ?k1 None) [] = Inr (th1, log1)" and
    pr: "portRange dp env = Inr rng" and
    p2: "runPhase (unit2 dp rng) ?w ips (replicate ?k2 None) log1 = Inr (th2, log2)" and
    p3: "runPhase (unit3 dp rng) ?w ips th2 log2 = Inr (th3, log3)" and
    p4: "runPhase unit4 ?w ips th3 log3 = Inr (th4, log)"
    by (auto simp: collect_schedule_def Let_def split: sum.splits)
  from runPhase_log [OF p1, where Q = "\<lambda>i t. \<exists>a. t = unit1 env i a"]
  obtain n1 where n1: "log1 = [] @ n1" "foldl track {} n1 = {}"
      "\<forall>e \<in> set n1. \<exists>a. unit_of e = unit1 env (slot_of e) a"
    by auto
  from runPhase_log [OF p2, where Q = "\<lambda>i t. \<exists>a. t = unit2 dp rng i a"]
  obtain n2 where n2: "log2 = log1 @ n2" "th2 = replicate (length (replicate ?k2 (None :: ProbeUnit option))) None"
      "foldl track {} n2 = {}"
      "\<forall>e \<in> set n2. \<exists>a. unit_of e = unit2 dp rng (slot_of e) a"
    by auto
  from n2(2) have "occupied th2 = {}" by simp
  from runPhase_log [OF p3 this, where Q = "\<lambda>i t. \<exists>a. t = unit3 dp rng i a"]
  obtain n3 where n3: "log3 = log2 @ n3" "th3 = replicate (length th2) None"
      "foldl track {} n3 = {}"
      "\<forall>e \<in> set n3. \<exists>a. unit_of e = unit3 dp rng (slot_of e) a"
    by auto
  from n3(2) have "occupied th3 = {}" by simp
  from runPhase_log [OF p4 this, where Q = "\<lambda>i t. \<exists>a. t = unit4 i a"]
  obtain n4 where n4: "log = log3 @ n4" "foldl track {} n4 = {}"
      "\<forall>e \<in> set n4. \<exists>a. unit_of e = unit4 (slot_of e) a"
    by auto
  have "log = n1 @ n2 @ n3 @ n4" by (simp add: n4(1) n3(1) n2(1) n1(1))
  with pr n1(2,3) n2(3,4) n3(3,4) n4(2,3) show ?thesis by blast
qed

lemma collect_schedule_Nil: "collect_schedule dp env [] = Inr []"
  by (simp add: collect_schedule_def)

text \<open>
  A run on two addresses with \<open>maxThreads = 5\<close> and \<open>nbIPIDs = 4\<close>: one thread at a
  time in phase 1, two in each of the other phases.
\<close>

lemma collect_schedule_example:
  "collect_schedule
       \<lparr>DEFAULT_LOWER_SRC_PORT_ICMP_ID = 39000, DEFAULT_UPPER_SRC_PORT_ICMP_ID = 64000,
      DEFAULT_LOWER_DST_PORT_ICMP_SEQ = 39000, DEFAULT_UPPER_DST_PORT_ICMP_SEQ = 64000\<rparr>
       \<lparr>maxThreads = 5, nbIPIDs = 4\<rparr> [10, 20]
     = Inr [ThreadStart 0 (IPIDCollector 10 0),
          ThreadJoin 0 (IPIDCollector 10 0),
          ThreadStart 0 (IPIDCollector 20 0),
          ThreadJoin 0 (IPIDCollector 20 0),
          ThreadStart 0 (UDPUnreachablePortUnit 10 39000 43999 39000 64000),
          ThreadStart 1 (UDPUnreachablePortUnit 20 44000 48999 39000 64000),
          ThreadJoin 0 (UDPUnreachablePortUnit 10 39000 43999 39000 64000),
          ThreadJoin 1 (UDPUnreachablePortUnit 20 44000 48999 39000 64000),
          ThreadStart 0 (TimestampCheckUnit 10 39000 43999 39000 64000),
          ThreadStart 1 (TimestampCheckUnit 20 44000 48999 39000 64000),
          ThreadJoin 0 (TimestampCheckUnit 10 39000 43999 39000 64000),
          ThreadJoin 1 (TimestampCheckUnit 20 44000 48999 39000 64000),
          ThreadStart 0 (ReverseDNSUnit 10),
          ThreadStart 1 (ReverseDNSUnit 20),
          ThreadJoin 0 (ReverseDNSUnit 10),
          ThreadJoin 1 (ReverseDNSUnit 20)]"
proof -
  let ?D = "\<lparr>DEFAULT_LOWER_SRC_PORT_ICMP_ID = 39000, DEFAULT_UPPER_SRC_PORT_ICMP_ID = 64000,
      DEFAULT_LOWER_DST_PORT_ICMP_SEQ = 39000, DEFAULT_UPPER_DST_PORT_ICMP_SEQ = 64000\<rparr>"
  let ?E = "\<lparr>maxThreads = 5, nbIPIDs = 4\<rparr>"
  let ?L1 = "[ThreadStart 0 (IPIDCollector 10 0),
          ThreadJoin 0 (IPIDCollector 10 0),
          ThreadStart 0 (IPIDCollector 20 0),
          ThreadJoin 0 (IPIDCollector 20 0)]"
  let ?L2 = "[ThreadStart 0 (UDPUnreachablePortUnit 10 39000 43999 39000 64000),
          ThreadStart 1 (UDPUnreachablePortUnit 20 44000 48999 39000 64000),
          ThreadJoin 0 (UDPUnreachablePortUnit 10 39000 43999 39000 64000),
          ThreadJoin 1 (UDPUnreachablePortUnit 20 44000 48999 39000 64000)]"
  let ?L3 = "[ThreadStart 0 (TimestampCheckUnit 10 39000 43999 39000 64000),
          ThreadStart 1 (TimestampCheckUnit 20 44000 48999 39000 64000),
          ThreadJoin 0 (TimestampCheckUnit 10 39000 43999 39000 64000),
          ThreadJoin 1 (TimestampCheckUnit 20 44000 48999 39000 64000)]"
  let ?L4 = "[ThreadStart 0 (ReverseDNSUnit 10),
          ThreadStart 1 (ReverseDNSUnit 20),
          ThreadJoin 0 (ReverseDNSUnit 10),
          ThreadJoin 1 (ReverseDNSUnit 20)]"
  have k1: "unat (nbThreads1 ?E (Suc (Suc 0))) = Suc 0" by (simp add: unat_nbThreads1)
  have k2: "unat (nbThreads2 ?E (Suc (Suc 0))) = Suc (Suc 0)" by (simp add: unat_nbThreads2)
  have pr: "portRange ?D ?E = Inr 5000" by (simp add: portRange_def c_div_def)
  have p1: "runPhase (unit1 ?E) (Suc 0) [10, 20] [None] [] = Inr ([None], ?L1)"
    by (simp add: runPhase_def dispatch.simps(2) unit1_def Let_def)
  have p2: "runPhase (unit2 ?D 5000) 5 [10, 20] [None, None] ?L1 = Inr ([None, None], ?L1 @ ?L2)"
    by (simp add: runPhase_def dispatch.simps(2) unit2_def srcPortLower_def srcPortUpper_def Let_def)
  have p3: "runPhase (unit3 ?D 5000) 5 [10, 20] [None, None] (?L1 @ ?L2) = Inr ([None, None], ?L1 @ ?L2 @ ?L3)"
    by (simp add: runPhase_def dispatch.simps(2) unit3_def srcPortLower_def srcPortUpper_def Let_def)
  have p4: "runPhase unit4 5 [10, 20] [None, None] (?L1 @ ?L2 @ ?L3) = Inr ([None, None], ?L1 @ ?L2 @ ?L3 @ ?L4)"
    by (simp add: runPhase_def dispatch.simps(2) unit4_def Let_def)
  show ?thesis
    using p1 p2 p3 p4 by (simp add: collect_schedule_def k1 k2 pr)
qed


section \<open>SubnetSiteSet: grafting\<close>

lemma adaptRoutes_loop_eq:
  "adaptRoutes_loop old new sites n =
     (n + of_nat (length (filter (matchRoutePrefix old) sites)),
      map (\<lambda>ss. if matchRoutePrefix old ss then adaptRoute old new ss else ss) sites)"
  by (induction sites arbitrary: n) (simp_all add: Let_def)

lemma adaptRoutes_eq:
  "adaptRoutes old new sites =
     (of_nat (length (filter (matchRoutePrefix old) sites)),
      map (\<lambda>ss. if matchRoutePrefix old ss then adaptRoute old new ss else ss) sites)"
  by (simp add: adaptRoutes_def adaptRoutes_loop_eq)

lemma adaptRoute_begins_new: "matchRoutePrefix new (adaptRoute old new ss)"
  by (simp add: matchRoutePrefix_def adaptRoute_def)

lemma adaptRoute_no_rematch:
  assumes "take (length old) new \<noteq> old" and "take (length new) old \<noteq> new"
  shows "\<not> matchRoutePrefix old (adaptRoute old new ss)"
proof
  assume "matchRoutePrefix old (adaptRoute old new ss)"
  then have eq: "take (length old) (new @ drop (length old) (route ss)) = old"
    by (simp add: matchRoutePrefix_def adaptRoute_def)
  show False
  proof (cases "length old \<le> length new")
    case True
    with eq have "take (length old) new = old" by simp
    with assms(1) show False by contradiction
  next
    case False
    then have "length new \<le> length old" by simp
    from eq have "take (length new) (take (length old) (new @ drop (length old) (route ss))) = take (length new) old"
      by simp
    with \<open>length new \<le> length old\<close> have "new = take (length new) old"
      by (simp add: min_def)
    with assms(2) show False by simp
  qed
qed

text \<open>
  C8, with the condition on the second call made precise. After
  \<open>adaptRoutes(old, new)\<close> the modified sites are exactly those whose route began with
  \<open>old\<close> (equality of the first \<open>|old|\<close> hops); the route of each is \<open>new\<close>
  followed by what came after \<open>old\<close>, so it begins with \<open>new\<close>; the other sites are
  unchanged; the result is the number of modified sites (as an \<open>unsigned short\<close>).
  A second call with the same arguments modifies no site whenever neither of \<open>old\<close>
  and \<open>new\<close> is a prefix of the other.
\<close>

theorem adaptRoutes_grafting:
  "snd (adaptRoutes old new sites) =
     map (\<lambda>ss. if matchRoutePrefix old ss then adaptRoute old new ss else ss) sites
   \<and> fst (adaptRoutes old new sites) = of_nat (length (filter (matchRoutePrefix old) sites))
   \<and> length (snd (adaptRoutes old new sites)) = length sites
   \<and> (\<forall>k. k < length sites \<longrightarrow>
        (if take (length old) (route (sites ! k)) = old
         then route (snd (adaptRoutes old new sites) ! k) = new @ drop (length old) (route (sites ! k))
              \<and> take (length new) (route (snd (adaptRoutes old new sites) ! k)) = new
         else snd (adaptRoutes old new sites) ! k = sites ! k))
   \<and> (take (length old) new \<noteq> old \<and> take (length new) old \<noteq> new \<longrightarrow>
        adaptRoutes old new (snd (adaptRoutes old new sites)) = (0, snd (adaptRoutes old new sites))
        \<and> filter (matchRoutePrefix old) (snd (adaptRoutes old new sites)) = [])"
proof -
  let ?f = "\<lambda>ss. if matchRoutePrefix old ss then adaptRoute old new ss else ss"
  have 1: "snd (adaptRoutes old new sites) = map ?f sites" by (simp add: adaptRoutes_eq)
  have 2: "fst (adaptRoutes old new sites) = of_nat (length (filter (matchRoutePrefix old) sites))"
    by (simp add: adaptRoutes_eq)
  have 3: "length (snd (adaptRoutes old new sites)) = length sites" by (simp add: 1)
  have 4: "\<forall>k. k < length sites \<longrightarrow>
        (if take (length old) (route (sites ! k)) = old
         then route (snd (adaptRoutes old new sites) ! k) = new @ drop (length old) (route (sites ! k))
              \<and> take (length new) (route (snd (adaptRoutes old new sites) ! k)) = new
         else snd (adaptRoutes old new sites) ! k = sites ! k)"
    by (simp add: 1 matchRoutePrefix_def adaptRoute_def)
  have 5: "adaptRoutes old new (snd (adaptRoutes old new sites)) = (0, snd (adaptRoutes old new sites))
        \<and> filter (matchRoutePrefix old) (snd (adaptRoutes old new sites)) = []"
    if h: "take (length old) new \<noteq> old \<and> take (length new) old \<noteq> new"
  proof -
    have nm: "\<not> matchRoutePrefix old (?f ss)" for ss
      using adaptRoute_no_rematch [of old new ss] h by simp
    have f: "filter (matchRoutePrefix old) (map ?f sites) = []"
      by (simp only: filter_empty_conv set_map) (use nm in blast)
    have "map (\<lambda>ss. if matchRoutePrefix old ss then adaptRoute old new ss else ss) (map ?f sites) = map ?f sites"
      using nm by (simp add: comp_def)
    with f show ?thesis by (simp add: adaptRoutes_eq)
  qed
  from 1 2 3 4 5 show ?thesis by blast
qed

theorem adaptRoutes_grafting_witness:
  "take (length [1, 2 :: InetAddress]) [3] \<noteq> [1, 2 :: InetAddress]
   \<and> take (length [3 :: InetAddress]) [1, 2] \<noteq> [3 :: InetAddress]
   \<and> adaptRoutes [1, 2] [3]
        [\<lparr>sitePrefix = 167772160, prefixLength = 24, status = ACCURATE, pivotIP = 167772161,
          pivotTTL = 5, siteInterfaces = [(167772161, 5)], route = [1, 2, 5]\<rparr>]
       = (1, [\<lparr>sitePrefix = 167772160, prefixLength = 24, status = ACCURATE, pivotIP = 167772161,
          pivotTTL = 5, siteInterfaces = [(167772161, 5)], route = [3, 5]\<rparr>])
   \<and> adaptRoutes [1, 2] [3]
        (snd (adaptRoutes [1, 2] [3]
          [\<lparr>sitePrefix = 167772160, prefixLength = 24, status = ACCURATE, pivotIP = 167772161,
            pivotTTL = 5, siteInterfaces = [(167772161, 5)], route = [1, 2, 5]\<rparr>]))
       = (0, [\<lparr>sitePrefix = 167772160, prefixLength = 24, status = ACCURATE, pivotIP = 167772161,
          pivotTTL = 5, siteInterfaces = [(167772161, 5)], route = [3, 5]\<rparr>])"
proof -
  let ?s = "\<lparr>sitePrefix = 167772160, prefixLength = 24, status = ACCURATE, pivotIP = 167772161,
          pivotTTL = 5, siteInterfaces = [(167772161, 5)], route = [1, 2, 5]\<rparr>"
  let ?s' = "\<lparr>sitePrefix = 167772160, prefixLength = 24, status = ACCURATE, pivotIP = 167772161,
          pivotTTL = 5, siteInterfaces = [(167772161, 5)], route = [3, 5]\<rparr>"
  have h1: "take (length [1, 2 :: InetAddress]) [3] \<noteq> [1, 2 :: InetAddress]" by simp
  have h2: "take (length [3 :: InetAddress]) [1, 2] \<noteq> [3 :: InetAddress]" by simp
  have first: "adaptRoutes [1, 2] [3] [?s] = (1, [?s'])"
    by (simp add: adaptRoutes_def matchRoutePrefix_def adaptRoute_def)
  from adaptRoutes_grafting [of "[1, 2]" "[3]" "[?s]"] h1 h2
  have "adaptRoutes [1, 2] [3] (snd (adaptRoutes [1, 2] [3] [?s])) = (0, snd (adaptRoutes [1, 2] [3] [?s]))"
    by blast
  then have "adaptRoutes [1, 2] [3] (snd (adaptRoutes [1, 2] [3] [?s])) = (0, [?s'])"
    by (simp add: first)
  with h1 h2 first show ?thesis by blast
qed

text \<open>
  With \<open>old = [1, 2]\<close> and \<open>new = [1]\<close>, \<open>old\<close> is not a prefix of \<open>new\<close>, and the
  route \<open>[1, 2, 2, 9]\<close> is modified by the first call (to \<open>[1, 2, 9]\<close>) and again by the
  second (to \<open>[1, 9]\<close>).
\<close>

theorem adaptRoutes_second_call_counterexample:
  "take (length [1, 2 :: InetAddress]) [1] \<noteq> [1, 2 :: InetAddress]
   \<and> fst (adaptRoutes [1, 2] [1]
        [\<lparr>sitePrefix = 167772160, prefixLength = 24, status = ACCURATE, pivotIP = 167772161,
          pivotTTL = 5, siteInterfaces = [(167772161, 5)], route = [1, 2, 2, 9]\<rparr>]) = 1
   \<and> fst (adaptRoutes [1, 2] [1]
        (snd (adaptRoutes [1, 2] [1]
          [\<lparr>sitePrefix = 167772160, prefixLength = 24, status = ACCURATE, pivotIP = 167772161,
            pivotTTL = 5, siteInterfaces = [(167772161, 5)], route = [1, 2, 2, 9]\<rparr>]))) = 1
   \<and> map route (snd (adaptRoutes [1, 2] [1]
        (snd (adaptRoutes [1, 2] [1]
          [\<lparr>sitePrefix = 167772160, prefixLength = 24, status = ACCURATE, pivotIP = 167772161,
            pivotTTL = 5, siteInterfaces = [(167772161, 5)], route = [1, 2, 2, 9]\<rparr>])))) = [1, 9] # []"
  by (simp add: adaptRoutes_def matchRoutePrefix_def adaptRoute_def)

section \<open>AliasHintCollector: the barrier between the phases\<close>

lemma mains_append: "mains (a @ b) = mains a @ mains b"
  by (induction a rule: mains.induct) simp_all

lemma track_mem:
  "(j, t) \<in> foldl track R evs \<Longrightarrow> (j, t) \<in> R \<or> ThreadStart j t \<in> set evs"
proof (induction evs rule: rev_induct)
  case Nil
  then show ?case by simp
next
  case (snoc x xs)
  then show ?case by (cases x) (auto split: if_splits)
qed

lemma joined_later:
  "s < length log \<Longrightarrow> log ! s = ThreadStart j t \<Longrightarrow> (j, t) \<notin> foldl track R log \<Longrightarrow>
     \<exists>e. s < e \<and> e < length log \<and> log ! e = ThreadJoin j t"
proof (induction log rule: rev_induct)
  case Nil
  then show ?case by simp
next
  case (snoc x xs)
  show ?case
  proof (cases "s < length xs")
    case True
    with snoc.prems(2) have at: "xs ! s = ThreadStart j t" by (simp add: nth_append)
    show ?thesis
    proof (cases "(j, t) \<in> foldl track R xs")
      case False
      from snoc.IH [OF True at False] obtain e where "s < e" "e < length xs" "xs ! e = ThreadJoin j t"
        by blast
      then have "s < e \<and> e < length (xs @ [x]) \<and> (xs @ [x]) ! e = ThreadJoin j t"
        by (simp add: nth_append)
      then show ?thesis by blast
    next
      case mem: True
      from snoc.prems(3) have "(j, t) \<notin> track (foldl track R xs) x" by simp
      with mem have "x = ThreadJoin j t" by (cases x) auto
      with True have "s < length xs \<and> length xs < length (xs @ [x]) \<and> (xs @ [x]) ! length xs = ThreadJoin j t"
        by simp
      then show ?thesis by blast
    qed
  next
    case False
    with snoc.prems(1) have "s = length xs" by simp
    with snoc.prems(2) have "x = ThreadStart j t" by simp
    with snoc.prems(3) show ?thesis by simp
  qed
qed

lemma run_write_enabled:
  "run todo R tr \<Longrightarrow> i < length tr \<Longrightarrow> tr ! i = Write j t \<Longrightarrow>
     \<exists>rest. todo = mains (take i tr) @ rest \<and> (j, t) \<in> foldl track R (mains (take i tr))"
proof (induction arbitrary: i rule: run.induct)
  case (run_end R)
  then show ?case by simp
next
  case (run_main todo R e tr)
  show ?case
  proof (cases i)
    case 0
    with run_main.prems show ?thesis by simp
  next
    case (Suc i')
    with run_main.prems have "i' < length tr" "tr ! i' = Write j t" by simp_all
    from run_main.IH [OF this] obtain rest where
      "todo = mains (take i' tr) @ rest" "(j, t) \<in> foldl track (track R e) (mains (take i' tr))"
      by blast
    then show ?thesis by (simp add: Suc)
  qed
next
  case (run_write j0 t0 R todo tr)
  show ?case
  proof (cases i)
    case 0
    with run_write.prems run_write.hyps show ?thesis by simp
  next
    case (Suc i')
    with run_write.prems have "i' < length tr" "tr ! i' = Write j t" by simp_all
    from run_write.IH [OF this] show ?thesis by (simp add: Suc)
  qed
qed

lemma phase_of_units [simp]:
  "phase_of (unit1 env i a) = 1" "phase_of (unit2 dp rng i a) = 2"
  "phase_of (unit3 dp rng i a) = 3" "phase_of (unit4 i a) = 4"
  by (simp_all add: unit1_def unit2_def unit3_def unit4_def)

lemma schedule_cut:
  assumes "collect_schedule dp env ips = Inr log"
  shows "\<exists>pre post. log = pre @ post \<and> foldl track {} pre = {}
           \<and> (\<forall>e \<in> set pre. phase_of (unit_of e) \<le> k)
           \<and> (\<forall>e \<in> set post. k < phase_of (unit_of e))"
proof (cases "ips = []")
  case True
  with assms have "log = [] @ []" by (simp add: collect_schedule_Nil)
  then show ?thesis by fastforce
next
  case False
  from collect_schedule_log [OF assms False]
  obtain rng n1 n2 n3 n4 where log: "log = n1 @ n2 @ n3 @ n4"
    and c: "foldl track {} n1 = {}" "foldl track {} n2 = {}" "foldl track {} n3 = {}" "foldl track {} n4 = {}"
    and u1: "\<forall>e \<in> set n1. \<exists>a. unit_of e = unit1 env (slot_of e) a"
    and u2: "\<forall>e \<in> set n2. \<exists>a. unit_of e = unit2 dp rng (slot_of e) a"
    and u3: "\<forall>e \<in> set n3. \<exists>a. unit_of e = unit3 dp rng (slot_of e) a"
    and u4: "\<forall>e \<in> set n4. \<exists>a. unit_of e = unit4 (slot_of e) a"
    by blast
  have p1: "\<forall>e \<in> set n1. phase_of (unit_of e) = 1" using u1 by fastforce
  have p2: "\<forall>e \<in> set n2. phase_of (unit_of e) = 2" using u2 by fastforce
  have p3: "\<forall>e \<in> set n3. phase_of (unit_of e) = 3" using u3 by fastforce
  have p4: "\<forall>e \<in> set n4. phase_of (unit_of e) = 4" using u4 by fastforce
  consider "k = 0" | "k = 1" | "k = 2" | "k = 3" | "4 \<le> k" by linarith
  then show ?thesis
  proof cases
    case 1
    have "log = [] @ log" by simp
    moreover have "foldl track {} [] = {}" by simp
    moreover have "\<forall>e \<in> set log. k < phase_of (unit_of e)"
      using p1 p2 p3 p4 1 by (auto simp: log)
    ultimately show ?thesis by (metis empty_iff list.set(1))
  next
    case 2
    have "log = n1 @ (n2 @ n3 @ n4)" by (simp add: log)
    moreover have "\<forall>e \<in> set n1. phase_of (unit_of e) \<le> k" using p1 2 by simp
    moreover have "\<forall>e \<in> set (n2 @ n3 @ n4). k < phase_of (unit_of e)" using p2 p3 p4 2 by auto
    ultimately show ?thesis using c(1) by blast
  next
    case 3
    have "log = (n1 @ n2) @ (n3 @ n4)" by (simp add: log)
    moreover have "foldl track {} (n1 @ n2) = {}" by (simp add: c)
    moreover have "\<forall>e \<in> set (n1 @ n2). phase_of (unit_of e) \<le> k" using p1 p2 3 by auto
    moreover have "\<forall>e \<in> set (n3 @ n4). k < phase_of (unit_of e)" using p3 p4 3 by auto
    ultimately show ?thesis by blast
  next
    case 4
    have "log = (n1 @ n2 @ n3) @ n4" by (simp add: log)
    moreover have "foldl track {} (n1 @ n2 @ n3) = {}" by (simp add: c)
    moreover have "\<forall>e \<in> set (n1 @ n2 @ n3). phase_of (unit_of e) \<le> k" using p1 p2 p3 4 by auto
    moreover have "\<forall>e \<in> set n4. k < phase_of (unit_of e)" using p4 4 by auto
    ultimately show ?thesis by blast
  next
    case 5
    have "log = log @ []" by simp
    moreover have "foldl track {} log = {}" by (simp add: log c)
    moreover have "\<forall>e \<in> set log. phase_of (unit_of e) \<le> k" using p1 p2 p3 p4 5 by (auto simp: log)
    ultimately show ?thesis by (metis empty_iff list.set(1))
  qed
qed

lemma schedule_barrier:
  assumes "collect_schedule dp env ips = Inr log"
    and "s < length log" "s' < length log"
    and "log ! s = ThreadStart j t" "log ! s' = ThreadStart j' t'"
    and "phase_of t < phase_of t'"
  shows "\<exists>e. s < e \<and> e < s' \<and> log ! e = ThreadJoin j t"
proof -
  from schedule_cut [OF assms(1), of "phase_of t"]
  obtain pre post where log: "log = pre @ post" and c: "foldl track {} pre = {}"
    and lo: "\<forall>e \<in> set pre. phase_of (unit_of e) \<le> phase_of t"
    and hi: "\<forall>e \<in> set post. phase_of t < phase_of (unit_of e)"
    by blast
  have s: "s < length pre"
  proof (rule ccontr)
    assume "\<not> s < length pre"
    with assms(2,4) log have "s - length pre < length post" "post ! (s - length pre) = ThreadStart j t"
      by (auto simp: nth_append)
    then have "ThreadStart j t \<in> set post" by (metis nth_mem)
    with hi show False by auto
  qed
  have s': "length pre \<le> s'"
  proof (rule ccontr)
    assume "\<not> length pre \<le> s'"
    with assms(5) log have "s' < length pre" "pre ! s' = ThreadStart j' t'"
      by (auto simp: nth_append)
    then have "ThreadStart j' t' \<in> set pre" by (metis nth_mem)
    with lo assms(6) show False by auto
  qed
  from s assms(4) log have at: "pre ! s = ThreadStart j t" by (simp add: nth_append)
  from c have "(j, t) \<notin> foldl track {} pre" by simp
  from joined_later [OF s at this] obtain e where e: "s < e" "e < length pre" "pre ! e = ThreadJoin j t"
    by blast
  with s' log have "s < e \<and> e < s' \<and> log ! e = ThreadJoin j t" by (simp add: nth_append)
  then show ?thesis by blast
qed

lemma schedule_writes_in_phase_order:
  assumes "collect_schedule dp env ips = Inr log"
    and "run log {} tr"
    and "p < length tr" "q < length tr"
    and "tr ! p = Write j t" "tr ! q = Write j' t'"
    and "phase_of t < phase_of t'"
  shows "p < q"
proof (rule ccontr)
  assume "\<not> p < q"
  then have qp: "q \<le> p" by simp
  from schedule_cut [OF assms(1), of "phase_of t"]
  obtain pre post where log: "log = pre @ post" and c: "foldl track {} pre = {}"
    and lo: "\<forall>e \<in> set pre. phase_of (unit_of e) \<le> phase_of t"
    and hi: "\<forall>e \<in> set post. phase_of t < phase_of (unit_of e)"
    by blast
  let ?dq = "mains (take q tr)" and ?dp = "mains (take p tr)"
  from run_write_enabled [OF assms(2) assms(4) assms(6)]
  obtain rq where rq: "log = ?dq @ rq" and mq: "(j', t') \<in> foldl track {} ?dq" by blast
  from run_write_enabled [OF assms(2) assms(3) assms(5)]
  obtain rp where rp: "log = ?dp @ rp" and mp: "(j, t) \<in> foldl track {} ?dp" by blast
  from qp have "take p tr = take q tr @ drop q (take p tr)"
    by (metis append_take_drop_id min.absorb1 take_take)
  then have "?dp = ?dq @ mains (drop q (take p tr))" by (metis mains_append)
  then obtain y where y: "?dp = ?dq @ y" by blast
  from track_mem [OF mq] have st: "ThreadStart j' t' \<in> set ?dq" by simp
  from rq log have "?dq @ rq = pre @ post" by simp
  then obtain us where "(?dq = pre @ us \<and> us @ rq = post) \<or> (?dq @ us = pre \<and> rq = us @ post)"
    by (auto simp: append_eq_append_conv2)
  then show False
  proof
    assume a: "?dq = pre @ us \<and> us @ rq = post"
    from rp log y a have "pre @ post = pre @ us @ y @ rp" by simp
    then have post: "post = us @ y @ rp" by simp
    from y a have "foldl track {} ?dp = foldl track (foldl track {} pre) (us @ y)" by simp
    with c mp have "(j, t) \<in> foldl track {} (us @ y)" by simp
    from track_mem [OF this] have "ThreadStart j t \<in> set (us @ y)" by simp
    with post have "ThreadStart j t \<in> set post" by auto
    with hi show False by auto
  next
    assume "?dq @ us = pre \<and> rq = us @ post"
    with st have "ThreadStart j' t' \<in> set pre" by auto
    with lo assms(7) show False by auto
  qed
qed

lemma collect_schedule_total:
  assumes "unat (nbIPIDs env) + 1 \<le> unat (maxThreads env)"
  shows "\<exists>log. collect_schedule dp env ips = Inr log"
proof (cases "ips = []")
  case True
  then show ?thesis by (simp add: collect_schedule_Nil)
next
  case False
  let ?k1 = "unat (nbThreads1 env (length ips))" and ?k2 = "unat (nbThreads2 env (length ips))"
  let ?w = "unat (maxThreads env)"
  have w: "?w < 65536" by (rule unat16_less)
  from assms have wpos: "0 < ?w" by simp
  from collect_phase1_safe [OF False assms] obtain th1 log1 where
    p1: "runPhase (unit1 env) ?k1 ips (replicate ?k1 None) [] = Inr (th1, log1)"
    by (auto simp: collect_phase1_def)
  from wpos have "maxThreads env \<noteq> 0" by (auto simp: unat_eq_0)
  then obtain rng where pr: "portRange dp env = Inr rng" by (simp add: portRange_def)
  have k2: "?k2 = min (length ips) ?w" by (rule unat_nbThreads2)
  have inv2: "(?k2 = ?w \<and> 0 < ?w) \<or> length ips \<le> ?k2" using k2 wpos by (auto simp: min_def)
  have le2: "?k2 \<le> ?w" using k2 by simp
  from runPhase_safe [of "replicate ?k2 None" ?w ips "unit2 dp rng" log1] le2 w inv2
  obtain th2 log2 where
    p2: "runPhase (unit2 dp rng) ?w ips (replicate ?k2 None) log1 = Inr (th2, log2)" by auto
  from runPhase_log [OF p2, where Q = "\<lambda>i t. True"]
  have th2: "th2 = replicate ?k2 None" by auto
  from runPhase_safe [of th2 ?w ips "unit3 dp rng" log2] le2 w inv2 th2
  obtain th3 log3 where p3: "runPhase (unit3 dp rng) ?w ips th2 log2 = Inr (th3, log3)" by auto
  from runPhase_log [OF p3, where Q = "\<lambda>i t. True"] th2
  have th3: "th3 = replicate ?k2 None" by auto
  from runPhase_safe [of th3 ?w ips unit4 log3] le2 w inv2 th3
  obtain th4 log4 where p4: "runPhase unit4 ?w ips th3 log3 = Inr (th4, log4)" by auto
  from False p1 pr p2 p3 p4 have "collect_schedule dp env ips = Inr log4"
    by (simp add: collect_schedule_def)
  then show ?thesis by blast
qed

text \<open>
  C9, for the configurations with \<open>maxThreads \<ge> nbIPIDs + 1\<close>. In such a
  configuration, whatever the input list, the run of \<open>collect\<close> goes through its four
  phases without a fault, and in its log a thread started in one phase is joined before
  any thread of a later phase is started. Hence in every interleaving of the collector
  thread with its workers (\<open>run\<close>) a result written by a worker of one phase is written
  before every result written by a worker of a later phase.
\<close>

theorem collect_phase_barrier:
  "unat (nbIPIDs env) + 1 \<le> unat (maxThreads env) \<longrightarrow>
     (\<exists>log. collect_schedule dp env ips = Inr log
      \<and> (\<forall>s s' j t j' t'.
            s < length log \<and> s' < length log
          \<and> log ! s = ThreadStart j t \<and> log ! s' = ThreadStart j' t'
          \<and> phase_of t < phase_of t'
          \<longrightarrow> (\<exists>e. s < e \<and> e < s' \<and> log ! e = ThreadJoin j t))
      \<and> (\<forall>tr p q j t j' t'.
            run log {} tr \<and> p < length tr \<and> q < length tr
          \<and> tr ! p = Write j t \<and> tr ! q = Write j' t'
          \<and> phase_of t < phase_of t'
          \<longrightarrow> p < q))"
proof (rule impI)
  assume "unat (nbIPIDs env) + 1 \<le> unat (maxThreads env)"
  then obtain log where sched: "collect_schedule dp env ips = Inr log"
    using collect_schedule_total by blast
  have barrier: "\<exists>e. s < e \<and> e < s' \<and> log ! e = ThreadJoin j t"
    if "s < length log \<and> s' < length log
          \<and> log ! s = ThreadStart j t \<and> log ! s' = ThreadStart j' t'
          \<and> phase_of t < phase_of t'" for s s' j t j' t'
    using that schedule_barrier [OF sched, of s s' j t j' t'] by blast
  have order: "p < q"
    if "run log {} tr \<and> p < length tr \<and> q < length tr
          \<and> tr ! p = Write j t \<and> tr ! q = Write j' t'
          \<and> phase_of t < phase_of t'" for tr p q j t j' t'
    using that schedule_writes_in_phase_order [OF sched, of tr p q j t j' t'] by blast
  show "\<exists>log. collect_schedule dp env ips = Inr log
      \<and> (\<forall>s s' j t j' t'.
            s < length log \<and> s' < length log
          \<and> log ! s = ThreadStart j t \<and> log ! s' = ThreadStart j' t'
          \<and> phase_of t < phase_of t'
          \<longrightarrow> (\<exists>e. s < e \<and> e < s' \<and> log ! e = ThreadJoin j t))
      \<and> (\<forall>tr p q j t j' t'.
            run log {} tr \<and> p < length tr \<and> q < length tr
          \<and> tr ! p = Write j t \<and> tr ! q = Write j' t'
          \<and> phase_of t < phase_of t'
          \<longrightarrow> p < q)"
  proof (rule exI [of _ log], intro conjI allI impI)
    show "collect_schedule dp env ips = Inr log" by (rule sched)
  next
    fix s s' j t j' t'
    assume "s < length log \<and> s' < length log
          \<and> log ! s = ThreadStart j t \<and> log ! s' = ThreadStart j' t'
          \<and> phase_of t < phase_of t'"
    then show "\<exists>e. s < e \<and> e < s' \<and> log ! e = ThreadJoin j t" by (rule barrier)
  next
    fix tr p q j t j' t'
    assume "run log {} tr \<and> p < length tr \<and> q < length tr
          \<and> tr ! p = Write j t \<and> tr ! q = Write j' t'
          \<and> phase_of t < phase_of t'"
    then show "p < q" by (rule order)
  qed
qed

theorem collect_phase_barrier_witness:
  "unat (nbIPIDs \<lparr>maxThreads = 5, nbIPIDs = 4\<rparr>) + 1 \<le> unat (maxThreads \<lparr>maxThreads = 5, nbIPIDs = 4\<rparr>)
   \<and> collect_schedule
       \<lparr>DEFAULT_LOWER_SRC_PORT_ICMP_ID = 39000, DEFAULT_UPPER_SRC_PORT_ICMP_ID = 64000,
      DEFAULT_LOWER_DST_PORT_ICMP_SEQ = 39000, DEFAULT_UPPER_DST_PORT_ICMP_SEQ = 64000\<rparr>
       \<lparr>maxThreads = 5, nbIPIDs = 4\<rparr> [10, 20]
     = Inr [ThreadStart 0 (IPIDCollector 10 0),
          ThreadJoin 0 (IPIDCollector 10 0),
          ThreadStart 0 (IPIDCollector 20 0),
          ThreadJoin 0 (IPIDCollector 20 0),
          ThreadStart 0 (UDPUnreachablePortUnit 10 39000 43999 39000 64000),
          ThreadStart 1 (UDPUnreachablePortUnit 20 44000 48999 39000 64000),
          ThreadJoin 0 (UDPUnreachablePortUnit 10 39000 43999 39000 64000),
          ThreadJoin 1 (UDPUnreachablePortUnit 20 44000 48999 39000 64000),
          ThreadStart 0 (TimestampCheckUnit 10 39000 43999 39000 64000),
          ThreadStart 1 (TimestampCheckUnit 20 44000 48999 39000 64000),
          ThreadJoin 0 (TimestampCheckUnit 10 39000 43999 39000 64000),
          ThreadJoin 1 (TimestampCheckUnit 20 44000 48999 39000 64000),
          ThreadStart 0 (ReverseDNSUnit 10),
          ThreadStart 1 (ReverseDNSUnit 20),
          ThreadJoin 0 (ReverseDNSUnit 10),
          ThreadJoin 1 (ReverseDNSUnit 20)]
   \<and> run [ThreadStart 0 (IPIDCollector 10 0),
          ThreadJoin 0 (IPIDCollector 10 0),
          ThreadStart 0 (IPIDCollector 20 0),
          ThreadJoin 0 (IPIDCollector 20 0),
          ThreadStart 0 (UDPUnreachablePortUnit 10 39000 43999 39000 64000),
          ThreadStart 1 (UDPUnreachablePortUnit 20 44000 48999 39000 64000),
          ThreadJoin 0 (UDPUnreachablePortUnit 10 39000 43999 39000 64000),
          ThreadJoin 1 (UDPUnreachablePortUnit 20 44000 48999 39000 64000),
          ThreadStart 0 (TimestampCheckUnit 10 39000 43999 39000 64000),
          ThreadStart 1 (TimestampCheckUnit 20 44000 48999 39000 64000),
          ThreadJoin 0 (TimestampCheckUnit 10 39000 43999 39000 64000),
          ThreadJoin 1 (TimestampCheckUnit 20 44000 48999 39000 64000),
          ThreadStart 0 (ReverseDNSUnit 10),
          ThreadStart 1 (ReverseDNSUnit 20),
          ThreadJoin 0 (ReverseDNSUnit 10),
          ThreadJoin 1 (ReverseDNSUnit 20)] {}
         [Main (ThreadStart 0 (IPIDCollector 10 0)),
          Write 0 (IPIDCollector 10 0),
          Main (ThreadJoin 0 (IPIDCollector 10 0)),
          Main (ThreadStart 0 (IPIDCollector 20 0)),
          Write 0 (IPIDCollector 20 0),
          Main (ThreadJoin 0 (IPIDCollector 20 0)),
          Main (ThreadStart 0 (UDPUnreachablePortUnit 10 39000 43999 39000 64000)),
          Main (ThreadStart 1 (UDPUnreachablePortUnit 20 44000 48999 39000 64000)),
          Write 1 (UDPUnreachablePortUnit 20 44000 48999 39000 64000),
          Write 0 (UDPUnreachablePortUnit 10 39000 43999 39000 64000),
          Main (ThreadJoin 0 (UDPUnreachablePortUnit 10 39000 43999 39000 64000)),
          Main (ThreadJoin 1 (UDPUnreachablePortUnit 20 44000 48999 39000 64000)),
          Main (ThreadStart 0 (TimestampCheckUnit 10 39000 43999 39000 64000)),
          Main (ThreadStart 1 (TimestampCheckUnit 20 44000 48999 39000 64000)),
          Write 0 (TimestampCheckUnit 10 39000 43999 39000 64000),
          Main (ThreadJoin 0 (TimestampCheckUnit 10 39000 43999 39000 64000)),
          Write 1 (TimestampCheckUnit 20 44000 48999 39000 64000),
          Main (ThreadJoin 1 (TimestampCheckUnit 20 44000 48999 39000 64000)),
          Main (ThreadStart 0 (ReverseDNSUnit 10)),
          Main (ThreadStart 1 (ReverseDNSUnit 20)),
          Write 0 (ReverseDNSUnit 10),
          Write 1 (ReverseDNSUnit 20),
          Main (ThreadJoin 0 (ReverseDNSUnit 10)),
          Main (ThreadJoin 1 (ReverseDNSUnit 20))]
   \<and> (\<exists>e. 2 < e \<and> e < 4 \<and>
         [ThreadStart 0 (IPIDCollector 10 0),
          ThreadJoin 0 (IPIDCollector 10 0),
          ThreadStart 0 (IPIDCollector 20 0),
          ThreadJoin 0 (IPIDCollector 20 0),
          ThreadStart 0 (UDPUnreachablePortUnit 10 39000 43999 39000 64000),
          ThreadStart 1 (UDPUnreachablePortUnit 20 44000 48999 39000 64000),
          ThreadJoin 0 (UDPUnreachablePortUnit 10 39000 43999 39000 64000),
          ThreadJoin 1 (UDPUnreachablePortUnit 20 44000 48999 39000 64000),
          ThreadStart 0 (TimestampCheckUnit 10 39000 43999 39000 64000),
          ThreadStart 1 (TimestampCheckUnit 20 44000 48999 39000 64000),
          ThreadJoin 0 (TimestampCheckUnit 10 39000 43999 39000 64000),
          ThreadJoin 1 (TimestampCheckUnit 20 44000 48999 39000 64000),
          ThreadStart 0 (ReverseDNSUnit 10),
          ThreadStart 1 (ReverseDNSUnit 20),
          ThreadJoin 0 (ReverseDNSUnit 10),
          ThreadJoin 1 (ReverseDNSUnit 20)] ! e = ThreadJoin 0 (IPIDCollector 20 0))
   \<and> (4 :: nat) < 8"
proof -
  let ?D = "\<lparr>DEFAULT_LOWER_SRC_PORT_ICMP_ID = 39000, DEFAULT_UPPER_SRC_PORT_ICMP_ID = 64000,
      DEFAULT_LOWER_DST_PORT_ICMP_SEQ = 39000, DEFAULT_UPPER_DST_PORT_ICMP_SEQ = 64000\<rparr>"
  let ?E = "\<lparr>maxThreads = 5, nbIPIDs = 4\<rparr>"
  let ?LOG = "[ThreadStart 0 (IPIDCollector 10 0),
          ThreadJoin 0 (IPIDCollector 10 0),
          ThreadStart 0 (IPIDCollector 20 0),
          ThreadJoin 0 (IPIDCollector 20 0),
          ThreadStart 0 (UDPUnreachablePortUnit 10 39000 43999 39000 64000),
          ThreadStart 1 (UDPUnreachablePortUnit 20 44000 48999 39000 64000),
          ThreadJoin 0 (UDPUnreachablePortUnit 10 39000 43999 39000 64000),
          ThreadJoin 1 (UDPUnreachablePortUnit 20 44000 48999 39000 64000),
          ThreadStart 0 (TimestampCheckUnit 10 39000 43999 39000 64000),
          ThreadStart 1 (TimestampCheckUnit 20 44000 48999 39000 64000),
          ThreadJoin 0 (TimestampCheckUnit 10 39000 43999 39000 64000),
          ThreadJoin 1 (TimestampCheckUnit 20 44000 48999 39000 64000),
          ThreadStart 0 (ReverseDNSUnit 10),
          ThreadStart 1 (ReverseDNSUnit 20),
          ThreadJoin 0 (ReverseDNSUnit 10),
          ThreadJoin 1 (ReverseDNSUnit 20)]"
  let ?TR = "[Main (ThreadStart 0 (IPIDCollector 10 0)),
          Write 0 (IPIDCollector 10 0),
          Main (ThreadJoin 0 (IPIDCollector 10 0)),
          Main (ThreadStart 0 (IPIDCollector 20 0)),
          Write 0 (IPIDCollector 20 0),
          Main (ThreadJoin 0 (IPIDCollector 20 0)),
          Main (ThreadStart 0 (UDPUnreachablePortUnit 10 39000 43999 39000 64000)),
          Main (ThreadStart 1 (UDPUnreachablePortUnit 20 44000 48999 39000 64000)),
          Write 1 (UDPUnreachablePortUnit 20 44000 48999 39000 64000),
          Write 0 (UDPUnreachablePortUnit 10 39000 43999 39000 64000),
          Main (ThreadJoin 0 (UDPUnreachablePortUnit 10 39000 43999 39000 64000)),
          Main (ThreadJoin 1 (UDPUnreachablePortUnit 20 44000 48999 39000 64000)),
          Main (ThreadStart 0 (TimestampCheckUnit 10 39000 43999 39000 64000)),
          Main (ThreadStart 1 (TimestampCheckUnit 20 44000 48999 39000 64000)),
          Write 0 (TimestampCheckUnit 10 39000 43999 39000 64000),
          Main (ThreadJoin 0 (TimestampCheckUnit 10 39000 43999 39000 64000)),
          Write 1 (TimestampCheckUnit 20 44000 48999 39000 64000),
          Main (ThreadJoin 1 (TimestampCheckUnit 20 44000 48999 39000 64000)),
          Main (ThreadStart 0 (ReverseDNSUnit 10)),
          Main (ThreadStart 1 (ReverseDNSUnit 20)),
          Write 0 (ReverseDNSUnit 10),
          Write 1 (ReverseDNSUnit 20),
          Main (ThreadJoin 0 (ReverseDNSUnit 10)),
          Main (ThreadJoin 1 (ReverseDNSUnit 20))]"
  have valid: "unat (nbIPIDs ?E) + 1 \<le> unat (maxThreads ?E)" by simp
  have sched: "collect_schedule ?D ?E [10, 20] = Inr ?LOG" by (rule collect_schedule_example)
  have r: "run ?LOG {} ?TR"
    by (intro run.intros) simp_all
  have at: "?LOG ! 2 = ThreadStart 0 (IPIDCollector 20 0)" "?LOG ! 4 = ThreadStart 0 (UDPUnreachablePortUnit 10 39000 43999 39000 64000)" "(2::nat) < length ?LOG" "(4::nat) < length ?LOG"
    by simp_all
  have ph: "phase_of (IPIDCollector 20 0) < phase_of (UDPUnreachablePortUnit 10 39000 43999 39000 64000)" by simp
  from collect_phase_barrier [of ?E ?D "[10, 20]", THEN mp, OF valid]
  obtain log where sched': "collect_schedule ?D ?E [10, 20] = Inr log"
    and barrier: "\<forall>s s' j t j' t'.
            s < length log \<and> s' < length log
          \<and> log ! s = ThreadStart j t \<and> log ! s' = ThreadStart j' t'
          \<and> phase_of t < phase_of t'
          \<longrightarrow> (\<exists>e. s < e \<and> e < s' \<and> log ! e = ThreadJoin j t)"
    and order: "\<forall>tr p q j t j' t'.
            run log {} tr \<and> p < length tr \<and> q < length tr
          \<and> tr ! p = Write j t \<and> tr ! q = Write j' t'
          \<and> phase_of t < phase_of t'
          \<longrightarrow> p < q"
    by (elim exE conjE) (rule that)
  from sched sched' have eq: "log = ?LOG" by simp
  have "(2::nat) < length log \<and> (4::nat) < length log
          \<and> log ! 2 = ThreadStart 0 (IPIDCollector 20 0)
          \<and> log ! 4 = ThreadStart 0 (UDPUnreachablePortUnit 10 39000 43999 39000 64000)
          \<and> phase_of (IPIDCollector 20 0) < phase_of (UDPUnreachablePortUnit 10 39000 43999 39000 64000)"
    unfolding eq by (intro conjI at ph)
  from barrier [rule_format, OF this]
  have b: "\<exists>e. 2 < e \<and> e < 4 \<and> ?LOG ! e = ThreadJoin 0 (IPIDCollector 20 0)"
    unfolding eq .
  have w: "?TR ! 4 = Write 0 (IPIDCollector 20 0)" "?TR ! 8 = Write 1 (UDPUnreachablePortUnit 20 44000 48999 39000 64000)" "(4::nat) < length ?TR" "(8::nat) < length ?TR"
    by simp_all
  have ph': "phase_of (IPIDCollector 20 0) < phase_of (UDPUnreachablePortUnit 20 44000 48999 39000 64000)" by simp
  have "run log {} ?TR \<and> (4::nat) < length ?TR \<and> (8::nat) < length ?TR
          \<and> ?TR ! 4 = Write 0 (IPIDCollector 20 0)
          \<and> ?TR ! 8 = Write 1 (UDPUnreachablePortUnit 20 44000 48999 39000 64000)
          \<and> phase_of (IPIDCollector 20 0) < phase_of (UDPUnreachablePortUnit 20 44000 48999 39000 64000)"
    unfolding eq by (intro conjI r w ph')
  from order [rule_format, OF this]
  have o: "(4::nat) < 8" .
  from valid sched r b o show ?thesis by blast
qed

text \<open>
  With \<open>maxThreads = 2\<close> and \<open>nbIPIDs = 4\<close> phase 1 allocates an array of
  \<open>2 / 5 = 0\<close> cells. On a list of two addresses the first pass of the dispatch loop
  reads \<open>th[0]\<close> outside of it, and the run of \<open>collect\<close> has no log; the waiting loop
  of phase 1 goes over no cell, so it joins no thread, not even one that was started.
\<close>

theorem collect_phase_barrier_counterexample:
  "unat (maxThreads \<lparr>maxThreads = 2, nbIPIDs = 4\<rparr>) < unat (nbIPIDs \<lparr>maxThreads = 2, nbIPIDs = 4\<rparr>) + 1
   \<and> nbThreads1 \<lparr>maxThreads = 2, nbIPIDs = 4\<rparr> (length [10, 20 :: InetAddress]) = 0
   \<and> dispatch (unit1 \<lparr>maxThreads = 2, nbIPIDs = 4\<rparr>) 0 [10, 20] 0 (replicate 0 None) [] = Inl ArrayOutOfBounds
   \<and> joinAll 0 (replicate 0 None) [ThreadStart 0 (IPIDCollector 10 0)]
       = ([], [ThreadStart 0 (IPIDCollector 10 0)])
   \<and> collect_schedule \<lparr>DEFAULT_LOWER_SRC_PORT_ICMP_ID = 39000, DEFAULT_UPPER_SRC_PORT_ICMP_ID = 64000,
      DEFAULT_LOWER_DST_PORT_ICMP_SEQ = 39000, DEFAULT_UPPER_DST_PORT_ICMP_SEQ = 64000\<rparr> \<lparr>maxThreads = 2, nbIPIDs = 4\<rparr> [10, 20] = Inl ArrayOutOfBounds"
proof -
  let ?E = "\<lparr>maxThreads = 2, nbIPIDs = 4\<rparr>"
  have k: "unat (nbThreads1 ?E (Suc (Suc 0))) = 0" by (simp add: unat_nbThreads1)
  then have k0: "nbThreads1 ?E (Suc (Suc 0)) = 0" by (simp add: unat_eq_0)
  have d: "dispatch (unit1 ?E) 0 [10, 20] 0 [] [] = Inl ArrayOutOfBounds"
    by (simp add: dispatch_out_of_bounds)
  have j: "joinAll 0 [] [ThreadStart 0 (IPIDCollector 10 0)] = ([], [ThreadStart 0 (IPIDCollector 10 0)])"
    by (simp add: joinAll_eq)
  have "collect_schedule \<lparr>DEFAULT_LOWER_SRC_PORT_ICMP_ID = 39000, DEFAULT_UPPER_SRC_PORT_ICMP_ID = 64000,
      DEFAULT_LOWER_DST_PORT_ICMP_SEQ = 39000, DEFAULT_UPPER_DST_PORT_ICMP_SEQ = 64000\<rparr> ?E [10, 20] = Inl ArrayOutOfBounds"
    by (simp add: collect_schedule_def k runPhase_def d)
  with k0 d j show ?thesis by simp
qed


section \<open>AliasHintCollector: workers running at the same time\<close>

text \<open>The running threads are always those of the cells of the array.\<close>

lemma occupied_Nil [simp]: "occupied [] = {}"
  by (simp add: occupied_def)















end
